theory Spec2Isabelle
  imports Main "HOL-Library.AList"
begin

section \<open>Errors\<close>

text \<open>
  The exceptions the source can raise: \<open>NotImplementedError\<close> is raised by
  \<open>Cell.get_neighbor\<close> and \<open>Cell.set_neighbor\<close> on an unknown direction; the others are
  raised by the Python run time (an attribute of \<open>None\<close>, a list index out of range, a
  missing dictionary key).
\<close>

datatype error = NotImplementedError | AttributeError | IndexError | KeyError

definition and_then :: "error + 'a \<Rightarrow> ('a \<Rightarrow> error + 'b) \<Rightarrow> error + 'b" where
  "and_then m f = (case m of Inl e \<Rightarrow> Inl e | Inr v \<Rightarrow> f v)"

text \<open>A \<open>for\<close> loop over a list whose body may raise.\<close>

fun for_each :: "'a list \<Rightarrow> ('a \<Rightarrow> 's \<Rightarrow> error + 's) \<Rightarrow> 's \<Rightarrow> error + 's" where
  "for_each [] body s = Inr s"
| "for_each (x # xs) body s = and_then (body x s) (for_each xs body)"

text \<open>\<open>range(n)\<close>: empty when \<open>n \<le> 0\<close>.\<close>

definition py_range :: "int \<Rightarrow> int list" where
  "py_range n = map int [0..<nat n]"

text \<open>\<open>xs[i]\<close>: a negative index counts from the end, an index out of range raises.\<close>

definition index :: "'a list \<Rightarrow> int \<Rightarrow> error + 'a" where
  "index xs i =
     (if 0 \<le> i \<and> i < int (length xs) then Inr (xs ! nat i)
      else if - int (length xs) \<le> i \<and> i < 0 then Inr (xs ! nat (int (length xs) + i))
      else Inl IndexError)"

section \<open>Cells and the grid\<close>

text \<open>
  A \<open>Cell\<close> object is named by the pair \<open>(row, col)\<close> given to its constructor.
  \<open>Grid.prepare_grid\<close> creates exactly one object per pair, so inside one grid the pair is
  the identity of the object (the class defines neither \<open>__eq__\<close> nor \<open>__hash__\<close>).
  The mutable attributes of the cells (\<open>neighbor_cells\<close>, \<open>links\<close>, \<open>distance\<close>,
  \<open>previous\<close>) are kept in a store indexed by the cell, which is part of the grid.
  A link set is kept as the list of its elements in the order in which Python iterates
  them; \<open>previous\<close> is \<open>None\<close> as long as the attribute has not been written.
  The attribute \<open>content\<close> is never read and is left out.
\<close>

type_synonym cell = "int \<times> int"

definition row :: "cell \<Rightarrow> int" where
  "row c = fst c"

definition col :: "cell \<Rightarrow> int" where
  "col c = snd c"

record grid =
  num_rows :: int
  num_cols :: int
  rows :: "cell list list"
  neighbor_cells :: "cell \<Rightarrow> string \<Rightarrow> cell option option"
  links :: "cell \<Rightarrow> cell list"
  distance :: "cell \<Rightarrow> int"
  previous :: "cell \<Rightarrow> cell option"

definition NORTH :: string where "NORTH = ''North''"
definition SOUTH :: string where "SOUTH = ''South''"
definition EAST :: string where "EAST = ''East''"
definition WEST :: string where "WEST = ''West''"

text \<open>\<open>set.add\<close> on a link set.\<close>

definition set_add :: "'a \<Rightarrow> 'a list \<Rightarrow> 'a list" where
  "set_add x xs = (if x \<in> set xs then xs else xs @ [x])"

text \<open>
  \<open>Cell.link\<close>. The argument may be \<open>None\<close>: then \<open>None\<close> is added to the set and the
  call \<open>cell.link(self, False)\<close> raises.  No caller in the source passes \<open>None\<close> with
  \<open>bidirectional=False\<close>, and a link set of the model holds cells only.
\<close>

definition link_one :: "cell \<Rightarrow> cell \<Rightarrow> grid \<Rightarrow> grid" where
  "link_one self c g = g\<lparr>links := (links g)(self := set_add c (links g self))\<rparr>"

definition link :: "cell \<Rightarrow> cell option \<Rightarrow> grid \<Rightarrow> error + grid" where
  "link self c g =
     (case c of
        None \<Rightarrow> Inl AttributeError
      | Some c' \<Rightarrow> Inr (link_one c' self (link_one self c' g)))"

definition is_linked :: "grid \<Rightarrow> cell \<Rightarrow> cell \<Rightarrow> bool" where
  "is_linked g self c = (c \<in> set (links g self))"

definition get_neighbor :: "grid \<Rightarrow> cell \<Rightarrow> string \<Rightarrow> error + cell option" where
  "get_neighbor g self direction =
     (if direction \<notin> set [NORTH, SOUTH, EAST, WEST] then Inl NotImplementedError
      else Inr (case neighbor_cells g self direction of None \<Rightarrow> None | Some n \<Rightarrow> n))"

definition set_neighbor :: "cell \<Rightarrow> string \<Rightarrow> cell option \<Rightarrow> grid \<Rightarrow> error + grid" where
  "set_neighbor self direction c g =
     (if direction \<in> set [NORTH, SOUTH, EAST, WEST]
      then Inr (g\<lparr>neighbor_cells :=
                  (neighbor_cells g)(self := (neighbor_cells g self)(direction \<mapsto> c))\<rparr>)
      else Inl NotImplementedError)"

definition prepare_grid :: "grid \<Rightarrow> grid" where
  "prepare_grid g =
     g\<lparr>rows := map (\<lambda>r. map (\<lambda>c. (r, c)) (py_range (num_cols g))) (py_range (num_rows g))\<rparr>"

definition get_cell :: "grid \<Rightarrow> int \<Rightarrow> int \<Rightarrow> error + cell option" where
  "get_cell g r c =
     (if 0 \<le> r \<and> r < num_rows g \<and> 0 \<le> c \<and> c < num_cols g
      then and_then (index (rows g) r) (\<lambda>rw. and_then (index rw c) (\<lambda>x. Inr (Some x)))
      else Inr None)"

definition all_cells :: "grid \<Rightarrow> cell list" where
  "all_cells g = concat (rows g)"

definition configure_cell :: "cell \<Rightarrow> grid \<Rightarrow> error + grid" where
  "configure_cell c g =
     and_then (get_cell g (row c - 1) (col c)) (\<lambda>n.
     and_then (set_neighbor c NORTH n g) (\<lambda>g1.
     and_then (get_cell g1 (row c + 1) (col c)) (\<lambda>s.
     and_then (set_neighbor c SOUTH s g1) (\<lambda>g2.
     and_then (get_cell g2 (row c) (col c + 1)) (\<lambda>e.
     and_then (set_neighbor c EAST e g2) (\<lambda>g3.
     and_then (get_cell g3 (row c) (col c - 1)) (\<lambda>w.
     set_neighbor c WEST w g3)))))))"

definition configure_cells :: "grid \<Rightarrow> error + grid" where
  "configure_cells g = for_each (all_cells g) configure_cell g"

text \<open>\<open>Grid.__init__\<close>: the cells are created with no neighbour, no link and distance 0.\<close>

definition Grid :: "int \<Rightarrow> int \<Rightarrow> error + grid" where
  "Grid nr nc =
     configure_cells (prepare_grid
       \<lparr>num_rows = nr, num_cols = nc, rows = [],
        neighbor_cells = (\<lambda>_. Map.empty), links = (\<lambda>_. []),
        distance = (\<lambda>_. 0), previous = (\<lambda>_. None)\<rparr>)"

section \<open>The depth-first solver\<close>

text \<open>
  \<open>Grid.solve_maze\<close>. The stack is a Python list: \<open>append\<close> adds at the end and
  \<open>pop\<close> takes the last element. The loop has no bound in the source, so it is a partial
  function: the outer \<open>None\<close> is a loop that never returns, \<open>Some None\<close> is the returned
  \<open>None\<close> and \<open>Some (Some p)\<close> the returned path.
\<close>

partial_function (option) solve_maze_loop ::
  "grid \<Rightarrow> cell \<Rightarrow> (cell \<times> cell list) list \<Rightarrow> cell set \<Rightarrow> cell list option option" where
  "solve_maze_loop g end_cell stack visited =
     (if stack = [] then Some None
      else
        let current_cell = fst (last stack); path = snd (last stack) in
        if current_cell = end_cell then Some (Some path)
        else
          let visited' = insert current_cell visited in
          solve_maze_loop g end_cell
            (butlast stack @
               map (\<lambda>neighbor. (neighbor, path @ [neighbor]))
                 (filter (\<lambda>neighbor. neighbor \<notin> visited') (links g current_cell)))
            visited')"

declare solve_maze_loop.simps [code]

definition solve_maze :: "grid \<Rightarrow> cell \<Rightarrow> cell \<Rightarrow> cell list option option" where
  "solve_maze g start_cell end_cell =
     solve_maze_loop g end_cell [(start_cell, [start_cell])] {}"

section \<open>The shortest-path solver\<close>

text \<open>
  \<open>DjikstraSolver\<close> has the fields \<open>grid\<close> and \<open>queue\<close>. The field \<open>weight_calls\<close> is a
  ghost field that the source does not have: it records every call of \<open>weight\<close> made by
  \<open>relax\<close>, with its two arguments and its result.
\<close>

record solver =
  grid :: grid
  queue :: "(int \<times> cell) list"
  weight_calls :: "(cell \<times> cell \<times> int) list"

definition DjikstraSolver :: "grid \<Rightarrow> solver" where
  "DjikstraSolver g = \<lparr>grid = g, queue = [], weight_calls = []\<rparr>"

definition initialize :: "solver \<Rightarrow> error + solver" where
  "initialize s =
     (let g1 = fold (\<lambda>c g. g\<lparr>distance := (distance g)(c := 10000)\<rparr>) (all_cells (grid s)) (grid s)
      in and_then (get_cell g1 0 0) (\<lambda>c.
           case c of
             None \<Rightarrow> Inl AttributeError
           | Some c0 \<Rightarrow> Inr (s\<lparr>grid := g1\<lparr>distance := (distance g1)(c0 := 0)\<rparr>\<rparr>)))"

definition weight :: "solver \<Rightarrow> cell \<Rightarrow> cell \<Rightarrow> int" where
  "weight s cell1 cell2 = (if cell2 \<in> set (links (grid s) cell1) then 1 else 10000)"

text \<open>\<open>list.sort\<close> is stable, as \<open>sort_key\<close> is.\<close>

definition add_to_queue :: "cell \<Rightarrow> int \<Rightarrow> solver \<Rightarrow> solver" where
  "add_to_queue c d s = s\<lparr>queue := sort_key fst (queue s @ [(d, c)])\<rparr>"

definition relax_neighbor :: "cell \<Rightarrow> cell \<Rightarrow> solver \<Rightarrow> solver" where
  "relax_neighbor c neighbor s =
     (let w = weight s c neighbor;
          s1 = s\<lparr>weight_calls := weight_calls s @ [(c, neighbor, w)]\<rparr>;
          new_distance = distance (grid s1) c + w
      in if new_distance < distance (grid s1) neighbor
         then add_to_queue neighbor new_distance
                (s1\<lparr>grid := (grid s1)\<lparr>distance := (distance (grid s1))(neighbor := new_distance),
                                      previous := (previous (grid s1))(neighbor := Some c)\<rparr>\<rparr>)
         else s1)"

definition relax :: "cell \<Rightarrow> solver \<Rightarrow> solver" where
  "relax c s = fold (relax_neighbor c) (links (grid s) c) s"

partial_function (option) solve_loop :: "solver \<Rightarrow> solver option" where
  "solve_loop s =
     (if queue s = [] then Some s
      else let curr_cell = snd (hd (queue s))
           in solve_loop (relax curr_cell (s\<lparr>queue := tl (queue s)\<rparr>)))"

declare solve_loop.simps [code]

text \<open>\<open>min(xs, key=f)\<close> on a list that is not empty: the first of the least elements.\<close>

fun min_key :: "('a \<Rightarrow> int) \<Rightarrow> 'a \<Rightarrow> 'a list \<Rightarrow> 'a" where
  "min_key f m [] = m"
| "min_key f m (x # xs) = min_key f (if f x < f m then x else m) xs"

partial_function (option) recover_path_loop :: "grid \<Rightarrow> cell \<Rightarrow> cell list \<Rightarrow> cell list option" where
  "recover_path_loop g current path =
     (let path' = path @ [current] in
      if row current = 0 \<and> col current = 0 then Some path'
      else
        let neighbors = filter (\<lambda>neighbor. distance g neighbor < distance g current)
                          (links g current)
        in if neighbors = [] then Some path'
           else recover_path_loop g (min_key (distance g) (hd neighbors) (tl neighbors)) path')"

declare recover_path_loop.simps [code]

definition recover_path :: "solver \<Rightarrow> (error + cell list) option" where
  "recover_path s =
     (case get_cell (grid s) (num_rows (grid s) - 1) (num_cols (grid s) - 1) of
        Inl e \<Rightarrow> Some (Inl e)
      | Inr None \<Rightarrow> Some (Inr [])
      | Inr (Some current) \<Rightarrow>
          map_option (\<lambda>path. Inr (rev path)) (recover_path_loop (grid s) current []))"

text \<open>
  \<open>DjikstraSolver.solve\<close>: the path and the state of the solver when it returns. The start
  is the cell at (0, 0) and the end the cell in the last row and column; the returned empty
  list says that there is no path.
\<close>

definition solve :: "solver \<Rightarrow> (error + cell list \<times> solver) option" where
  "solve s =
     (case initialize s of
        Inl e \<Rightarrow> Some (Inl e)
      | Inr s1 \<Rightarrow>
         (case get_cell (grid s1) 0 0 of
            Inl e \<Rightarrow> Some (Inl e)
          | Inr None \<Rightarrow> Some (Inl AttributeError)
          | Inr (Some start) \<Rightarrow>
             (case solve_loop (add_to_queue start 0 s1) of
                None \<Rightarrow> None
              | Some s2 \<Rightarrow>
                 (case get_cell (grid s2) (num_rows (grid s2) - 1) (num_cols (grid s2) - 1) of
                    Inl e \<Rightarrow> Some (Inl e)
                  | Inr None \<Rightarrow> Some (Inl AttributeError)
                  | Inr (Some target) \<Rightarrow>
                      if distance (grid s2) target = 10000 then Some (Inr ([], s2))
                      else map_option (\<lambda>r. case r of Inl e \<Rightarrow> Inl e | Inr p \<Rightarrow> Inr (p, s2))
                             (recover_path s2)))))"

section \<open>The maze makers\<close>

text \<open>
  The makers draw from the module \<open>random\<close>. The random source is a parameter of the
  model: the sequence \<open>rnd\<close> of the numbers drawn, with the count of the draws made so far
  in the state. \<open>random.choice(xs)\<close> picks the element at a drawn index, and raises on an
  empty list; \<open>random.randint(a, b)\<close> is a drawn number of the range.
\<close>

type_synonym random_source = "nat \<Rightarrow> nat"

definition random_choice :: "random_source \<Rightarrow> nat \<Rightarrow> 'a list \<Rightarrow> error + 'a \<times> nat" where
  "random_choice rnd k xs =
     (if xs = [] then Inl IndexError else Inr (xs ! (rnd k mod length xs), Suc k))"

definition random_randint :: "random_source \<Rightarrow> nat \<Rightarrow> int \<Rightarrow> int \<Rightarrow> int \<times> nat" where
  "random_randint rnd k a b = (a + int (rnd k mod nat (b - a + 1)), Suc k)"

text \<open>The list of the neighbours that exist, as the \<open>if ...: neighbors.append(...)\<close> build it.\<close>

definition present :: "cell option \<Rightarrow> cell list" where
  "present n = (case n of None \<Rightarrow> [] | Some c \<Rightarrow> [c])"

text \<open>\<open>BinaryTreeMazeMaker.make_maze\<close>: the body of the loop, and the loop.\<close>

definition binary_tree_cell :: "random_source \<Rightarrow> cell \<Rightarrow> grid \<times> nat \<Rightarrow> error + grid \<times> nat" where
  "binary_tree_cell rnd c gk =
     and_then (get_neighbor (fst gk) c SOUTH) (\<lambda>south_neighbor.
     and_then (get_neighbor (fst gk) c EAST) (\<lambda>east_neighbor.
       let neighbors = present south_neighbor @ present east_neighbor
       in if neighbors \<noteq> []
          then and_then (random_choice rnd (snd gk) neighbors) (\<lambda>chosen.
               and_then (link c (Some (fst chosen)) (fst gk)) (\<lambda>g'. Inr (g', snd chosen)))
          else Inr gk))"

definition binary_tree_make_maze :: "random_source \<Rightarrow> grid \<Rightarrow> error + grid" where
  "binary_tree_make_maze rnd g =
     and_then (for_each (all_cells g) (binary_tree_cell rnd) (g, 0)) (\<lambda>gk. Inr (fst gk))"

text \<open>
  \<open>SidewinderMazeMaker.make_maze\<close>. The state of the inner loop is the grid, the count of
  draws and the run. The coin is flipped only when the cell has an eastern and a northern
  neighbour, as \<open>or\<close> and \<open>and\<close> evaluate.
\<close>

definition sidewinder_cell ::
  "random_source \<Rightarrow> cell \<Rightarrow> (grid \<times> nat) \<times> cell list \<Rightarrow> error + (grid \<times> nat) \<times> cell list" where
  "sidewinder_cell rnd c st =
     (let g = fst (fst st); k = snd (fst st); run = snd st @ [c] in
      and_then (get_neighbor g c EAST) (\<lambda>east.
      and_then (get_neighbor g c NORTH) (\<lambda>north.
        let at_eastern_boundary = (east = None);
            at_northern_boundary = (north = None);
            coin = (if at_eastern_boundary \<or> at_northern_boundary then (0, k)
                    else random_randint rnd k 0 1);
            should_close_out = (at_eastern_boundary \<or> (\<not> at_northern_boundary \<and> fst coin = 0))
        in if should_close_out
           then and_then (random_choice rnd (snd coin) run) (\<lambda>member.
                and_then (get_neighbor g (fst member) NORTH) (\<lambda>member_north.
                  if member_north \<noteq> None
                  then and_then (get_neighbor g (fst member) NORTH) (\<lambda>n.
                       and_then (link (fst member) n g) (\<lambda>g'. Inr ((g', snd member), [])))
                  else Inr ((g, snd member), [])))
           else and_then (get_neighbor g c EAST) (\<lambda>e.
                and_then (link c e g) (\<lambda>g'. Inr ((g', snd coin), run))))))"

definition sidewinder_row :: "random_source \<Rightarrow> cell list \<Rightarrow> grid \<times> nat \<Rightarrow> error + grid \<times> nat" where
  "sidewinder_row rnd rw gk =
     and_then (for_each rw (sidewinder_cell rnd) (gk, [])) (\<lambda>st. Inr (fst st))"

definition sidewinder_make_maze :: "random_source \<Rightarrow> grid \<Rightarrow> error + grid" where
  "sidewinder_make_maze rnd g =
     and_then (for_each (rows g) (sidewinder_row rnd) (g, 0)) (\<lambda>gk. Inr (fst gk))"

text \<open>
  \<open>EllerMazeMaker.make_maze\<close>. The dictionaries \<open>sets\<close> and \<open>groups\<close> are association
  lists in the order of insertion; reading a missing key raises \<open>KeyError\<close>. The state of
  the maker is the grid, the count of draws, \<open>set_counter\<close> and \<open>sets\<close>. In \<open>eller_carve\<close>
  the southern cell cannot be \<open>None\<close> where \<open>sets\<close> is written, since \<open>link\<close> has raised
  before.
\<close>

definition lookup :: "('k \<times> 'v) list \<Rightarrow> 'k \<Rightarrow> error + 'v" where
  "lookup d k = (case map_of d k of None \<Rightarrow> Inl KeyError | Some v \<Rightarrow> Inr v)"

definition merge_sets :: "(cell \<times> int) list \<Rightarrow> cell \<Rightarrow> cell \<Rightarrow> error + (cell \<times> int) list" where
  "merge_sets sets c other_cell =
     and_then (lookup sets other_cell) (\<lambda>target_set_id.
     and_then (lookup sets c) (\<lambda>source_set_id.
       Inr (map (\<lambda>e. if snd e = source_set_id then (fst e, target_set_id) else e) sets)))"

definition group_cell ::
  "(cell \<times> int) list \<Rightarrow> cell \<Rightarrow> (int \<times> cell list) list \<Rightarrow> error + (int \<times> cell list) list" where
  "group_cell sets c groups =
     and_then (lookup sets c) (\<lambda>cell_set_id.
       let groups1 = (if map_of groups cell_set_id = None
                      then AList.update cell_set_id [] groups else groups)
       in and_then (lookup groups1 cell_set_id) (\<lambda>members.
            Inr (AList.update cell_set_id (members @ [c]) groups1)))"

definition group_sets_by_id ::
  "(cell \<times> int) list \<Rightarrow> cell list \<Rightarrow> error + (int \<times> cell list) list" where
  "group_sets_by_id sets rw = for_each rw (group_cell sets) []"

type_synonym eller_state = "grid \<times> nat \<times> int \<times> (cell \<times> int) list"

definition eller_assign :: "cell \<Rightarrow> eller_state \<Rightarrow> error + eller_state" where
  "eller_assign c st =
     (case st of (g, k, set_counter, sets) \<Rightarrow>
        if map_of sets c = None
        then Inr (g, k, set_counter + 1, AList.update c (set_counter + 1) sets)
        else Inr st)"

definition eller_join :: "random_source \<Rightarrow> cell list \<Rightarrow> int \<Rightarrow> eller_state \<Rightarrow> error + eller_state" where
  "eller_join rnd rw i st =
     (case st of (g, k, set_counter, sets) \<Rightarrow>
        and_then (index rw i) (\<lambda>c.
        and_then (index rw (i + 1)) (\<lambda>next_cell.
        and_then (lookup sets c) (\<lambda>a.
        and_then (lookup sets next_cell) (\<lambda>b.
          if a \<noteq> b
          then and_then (random_choice rnd k [True, False]) (\<lambda>coin.
                 if fst coin
                 then and_then (link c (Some next_cell) g) (\<lambda>g'.
                      and_then (merge_sets sets c next_cell) (\<lambda>sets'.
                        Inr (g', snd coin, set_counter, sets')))
                 else Inr (g, snd coin, set_counter, sets))
          else Inr st)))))"

definition eller_carve :: "random_source \<Rightarrow> int \<Rightarrow> cell list \<Rightarrow> eller_state \<Rightarrow> error + eller_state" where
  "eller_carve rnd y members st =
     (case st of (g, k, set_counter, sets) \<Rightarrow>
        if y < num_rows g - 1
        then and_then (random_choice rnd k members) (\<lambda>cell_to_link.
             and_then (get_cell g (row (fst cell_to_link) + 1) (col (fst cell_to_link))) (\<lambda>south_cell.
             and_then (link (fst cell_to_link) south_cell g) (\<lambda>g'.
             and_then (lookup sets (fst cell_to_link)) (\<lambda>v.
               case south_cell of
                 None \<Rightarrow> Inl AttributeError
               | Some s \<Rightarrow> Inr (g', snd cell_to_link, set_counter, AList.update s v sets)))))
        else Inr st)"

definition eller_close :: "cell list \<Rightarrow> int \<Rightarrow> eller_state \<Rightarrow> error + eller_state" where
  "eller_close rw i st =
     (case st of (g, k, set_counter, sets) \<Rightarrow>
        and_then (index rw i) (\<lambda>c.
        and_then (index rw (i + 1)) (\<lambda>next_cell.
        and_then (lookup sets c) (\<lambda>a.
        and_then (lookup sets next_cell) (\<lambda>b.
          if a \<noteq> b
          then and_then (link c (Some next_cell) g) (\<lambda>g'. Inr (g', k, set_counter, sets))
          else Inr st)))))"

definition eller_row :: "random_source \<Rightarrow> int \<times> cell list \<Rightarrow> eller_state \<Rightarrow> error + eller_state" where
  "eller_row rnd yrow st =
     (let y = fst yrow; rw = snd yrow in
      and_then (for_each rw eller_assign st) (\<lambda>st1.
      and_then (for_each (py_range (int (length rw) - 1)) (eller_join rnd rw) st1) (\<lambda>st2.
      and_then (group_sets_by_id (snd (snd (snd st2))) rw) (\<lambda>set_groups.
      and_then (for_each (map snd set_groups) (eller_carve rnd y) st2) (\<lambda>st3.
        if y = num_rows (fst st3) - 1
        then for_each (py_range (int (length rw) - 1)) (eller_close rw) st3
        else Inr st3)))))"

definition eller_make_maze :: "random_source \<Rightarrow> grid \<Rightarrow> error + grid" where
  "eller_make_maze rnd g =
     and_then (for_each (zip (py_range (int (length (rows g)))) (rows g)) (eller_row rnd)
                 (g, 0, 0, []))
       (\<lambda>st. Inr (fst st))"

section \<open>The grid that the constructor builds\<close>

text \<open>
  The cells, the neighbour slots and the whole state of a grid that \<open>Grid.__init__\<close> has
  built, written without loops.
\<close>

definition grid_rows :: "int \<Rightarrow> int \<Rightarrow> cell list list" where
  "grid_rows nr nc = map (\<lambda>r. map (\<lambda>c. (r, c)) (py_range nc)) (py_range nr)"

definition grid_cells :: "int \<Rightarrow> int \<Rightarrow> cell list" where
  "grid_cells nr nc = concat (grid_rows nr nc)"

definition in_grid :: "int \<Rightarrow> int \<Rightarrow> cell \<Rightarrow> bool" where
  "in_grid nr nc c = (0 \<le> row c \<and> row c < nr \<and> 0 \<le> col c \<and> col c < nc)"

definition cell_at :: "int \<Rightarrow> int \<Rightarrow> int \<Rightarrow> int \<Rightarrow> cell option" where
  "cell_at nr nc r c = (if in_grid nr nc (r, c) then Some (r, c) else None)"

definition wired :: "int \<Rightarrow> int \<Rightarrow> cell \<Rightarrow> string \<Rightarrow> cell option option" where
  "wired nr nc c =
     (if in_grid nr nc c
      then [NORTH \<mapsto> cell_at nr nc (row c - 1) (col c),
            SOUTH \<mapsto> cell_at nr nc (row c + 1) (col c),
            EAST \<mapsto> cell_at nr nc (row c) (col c + 1),
            WEST \<mapsto> cell_at nr nc (row c) (col c - 1)]
      else Map.empty)"

definition fresh_grid :: "int \<Rightarrow> int \<Rightarrow> grid" where
  "fresh_grid nr nc =
     \<lparr>num_rows = nr, num_cols = nc, rows = grid_rows nr nc,
      neighbor_cells = wired nr nc, links = (\<lambda>_. []),
      distance = (\<lambda>_. 0), previous = (\<lambda>_. None)\<rparr>"

definition shape :: "int \<Rightarrow> int \<Rightarrow> grid \<Rightarrow> bool" where
  "shape nr nc g = (num_rows g = nr \<and> num_cols g = nc \<and> rows g = grid_rows nr nc)"

definition link_rel :: "grid \<Rightarrow> (cell \<times> cell) set" where
  "link_rel g = {(a, b). is_linked g a b}"

fun linked_path :: "grid \<Rightarrow> cell list \<Rightarrow> bool" where
  "linked_path g [] = True"
| "linked_path g [x] = True"
| "linked_path g (x # y # zs) = (is_linked g x y \<and> linked_path g (y # zs))"

definition good_entry :: "grid \<Rightarrow> cell set \<Rightarrow> cell \<Rightarrow> cell set \<Rightarrow> cell \<times> cell list \<Rightarrow> bool" where
  "good_entry g V start visited e =
     (fst e \<in> V \<and> snd e \<noteq> [] \<and> hd (snd e) = start \<and> last (snd e) = fst e \<and> distinct (snd e)
      \<and> set (butlast (snd e)) \<subseteq> visited \<and> linked_path g (snd e))"

definition dfs_inv ::
  "grid \<Rightarrow> cell set \<Rightarrow> cell \<Rightarrow> cell \<Rightarrow> (cell \<times> cell list) list \<Rightarrow> cell set \<Rightarrow> bool" where
  "dfs_inv g V start end_cell stack visited =
     (visited \<subseteq> V \<and> end_cell \<notin> visited
      \<and> (\<forall>e \<in> set stack. good_entry g V start visited e)
      \<and> (start \<in> visited \<or> start \<in> fst ` set stack)
      \<and> (\<forall>v \<in> visited. \<forall>n \<in> set (links g v). n \<in> visited \<or> n \<in> fst ` set stack)
      \<and> (\<forall>i < length stack. fst (stack ! i) \<in> visited \<longrightarrow>
            (\<forall>n \<in> set (links g (fst (stack ! i))).
               n \<in> visited \<or> n \<in> fst ` set (drop (Suc i) stack))))"

definition dfs_post :: "grid \<Rightarrow> cell \<Rightarrow> cell \<Rightarrow> cell list option \<Rightarrow> bool" where
  "dfs_post g start end_cell r =
     (case r of
        None \<Rightarrow> (start, end_cell) \<notin> (link_rel g)\<^sup>*
      | Some p \<Rightarrow> p \<noteq> [] \<and> hd p = start \<and> last p = end_cell \<and> distinct p \<and> linked_path g p)"

definition two_cells :: grid where
  "two_cells = (fresh_grid 1 2)\<lparr>links := (\<lambda>_. [])((0, 0) := [(0, 1)], (0, 1) := [(0, 0)])\<rparr>"

definition dij_inv :: "cell set \<Rightarrow> solver \<Rightarrow> bool" where
  "dij_inv V s =
     ((\<forall>c \<in> V. 0 \<le> distance (grid s) c) \<and> snd ` set (queue s) \<subseteq> V
      \<and> (\<forall>c \<in> V. set (links (grid s) c) \<subseteq> V))"

definition sum_dist :: "cell set \<Rightarrow> solver \<Rightarrow> nat" where
  "sum_dist V s = (\<Sum>c \<in> V. nat (distance (grid s) c))"

definition same_maze :: "grid \<Rightarrow> grid \<Rightarrow> bool" where
  "same_maze g g' =
     (num_rows g' = num_rows g \<and> num_cols g' = num_cols g \<and> rows g' = rows g
      \<and> neighbor_cells g' = neighbor_cells g \<and> links g' = links g)"

definition calls_ok :: "grid \<Rightarrow> (cell \<times> cell \<times> int) list \<Rightarrow> bool" where
  "calls_ok g calls = list_all (\<lambda>call. is_linked g (fst call) (fst (snd call)) \<and> snd (snd call) = 1) calls"

definition no_worse :: "cell set \<Rightarrow> solver \<Rightarrow> solver \<Rightarrow> bool" where
  "no_worse V s s' =
     (sum_dist V s' < sum_dist V s
      \<or> (distance (grid s') = distance (grid s) \<and> queue s' = queue s))"

definition after_first_solve :: solver where
  "after_first_solve = snd (projr (the (solve (DjikstraSolver two_cells))))"

fun walk :: "('a \<times> 'a) set \<Rightarrow> 'a list \<Rightarrow> bool" where
  "walk R [] = True"
| "walk R [x] = True"
| "walk R (x # y # zs) = ((x, y) \<in> R \<and> walk R (y # zs))"

definition bridged :: "('a \<times> 'a) set \<Rightarrow> bool" where
  "bridged E = (\<forall>x y. (x, y) \<in> E \<longrightarrow> (x, y) \<notin> (E - {(x, y), (y, x)})\<^sup>*)"

inductive grown :: "'a set \<Rightarrow> ('a \<Rightarrow> 'a \<Rightarrow> bool) \<Rightarrow> ('a \<times> 'a) set \<Rightarrow> bool"
  for V :: "'a set" and adj :: "'a \<Rightarrow> 'a \<Rightarrow> bool" where
  grown_empty: "grown V adj {}"
| grown_join: "grown V adj E \<Longrightarrow> a \<in> V \<Longrightarrow> b \<in> V \<Longrightarrow> adj a b \<Longrightarrow> adj b a \<Longrightarrow> (a, b) \<notin> E\<^sup>* \<Longrightarrow>
                 grown V adj (E \<union> {(a, b), (b, a)})"

definition undirected :: "('a \<times> 'a) set \<Rightarrow> 'a set set" where
  "undirected E = (\<lambda>e. {fst e, snd e}) ` E"

definition components :: "'a set \<Rightarrow> ('a \<times> 'a) set \<Rightarrow> 'a set set" where
  "components V E = (\<lambda>v. E\<^sup>* `` {v}) ` V"

definition cycle :: "('a \<times> 'a) set \<Rightarrow> 'a list \<Rightarrow> bool" where
  "cycle E p = (p \<noteq> [] \<and> distinct p \<and> walk E p \<and> (last p, hd p) \<in> E \<and> length p \<noteq> 2)"

definition adjacent :: "cell \<Rightarrow> cell \<Rightarrow> bool" where
  "adjacent a b =
     ((row a = row b \<and> \<bar>col a - col b\<bar> = 1) \<or> (col a = col b \<and> \<bar>row a - row b\<bar> = 1))"

definition wired_grid :: "int \<Rightarrow> int \<Rightarrow> grid \<Rightarrow> bool" where
  "wired_grid nr nc g = (shape nr nc g \<and> neighbor_cells g = wired nr nc)"

definition maze_inv :: "int \<Rightarrow> int \<Rightarrow> grid \<Rightarrow> bool" where
  "maze_inv nr nc g =
     (wired_grid nr nc g \<and> grown (Collect (in_grid nr nc)) adjacent (link_rel g))"

definition connected_grid :: "int \<Rightarrow> int \<Rightarrow> grid \<Rightarrow> bool" where
  "connected_grid nr nc g =
     (\<forall>x y. in_grid nr nc x \<longrightarrow> in_grid nr nc y \<longrightarrow> (x, y) \<in> (link_rel g)\<^sup>*)"

definition se :: "cell \<Rightarrow> cell \<Rightarrow> bool" where
  "se x y = (y = (row x + 1, col x) \<or> y = (row x, col x + 1))"

definition has_se :: "int \<Rightarrow> int \<Rightarrow> cell \<Rightarrow> bool" where
  "has_se nr nc x = (in_grid nr nc (row x + 1, col x) \<or> in_grid nr nc (row x, col x + 1))"

definition bt_inv :: "int \<Rightarrow> int \<Rightarrow> cell list \<Rightarrow> grid \<times> nat \<Rightarrow> bool" where
  "bt_inv nr nc pre gk =
     (maze_inv nr nc (fst gk)
      \<and> (\<exists>out. (\<forall>x \<in> set pre. has_se nr nc x \<longrightarrow> in_grid nr nc (out x) \<and> se x (out x))
             \<and> link_rel (fst gk) =
                 {(x, out x) | x. x \<in> set pre \<and> has_se nr nc x}
                 \<union> {(out x, x) | x. x \<in> set pre \<and> has_se nr nc x}))"

definition connected_on :: "'a set \<Rightarrow> ('a \<times> 'a) set \<Rightarrow> bool" where
  "connected_on S L = (\<forall>x y. x \<in> S \<longrightarrow> y \<in> S \<longrightarrow> (x, y) \<in> L\<^sup>*)"

definition within :: "('a \<times> 'a) set \<Rightarrow> 'a set \<Rightarrow> 'a set \<Rightarrow> bool" where
  "within L A B = (\<forall>x y. (x, y) \<in> L \<longrightarrow> (x \<in> A \<and> y \<in> A) \<or> (x \<in> B \<and> y \<in> B))"

definition row_cells :: "int \<Rightarrow> int \<Rightarrow> cell list" where
  "row_cells nc r = map (\<lambda>c. (r, c)) (py_range nc)"

definition sw_attached :: "int \<Rightarrow> int \<Rightarrow> int \<Rightarrow> int \<Rightarrow> cell set" where
  "sw_attached nr nc r s = {x. in_grid nr nc x \<and> (row x < r \<or> (row x = r \<and> col x < s))}"

definition sw_open :: "int \<Rightarrow> int \<Rightarrow> int \<Rightarrow> cell set" where
  "sw_open r s j = {x. row x = r \<and> s \<le> col x \<and> col x \<le> j}"

definition sw_inv :: "int \<Rightarrow> int \<Rightarrow> int \<Rightarrow> int \<Rightarrow> int \<Rightarrow> grid \<Rightarrow> cell list \<Rightarrow> bool" where
  "sw_inv nr nc r j s g run =
     (maze_inv nr nc g \<and> 0 \<le> r \<and> r < nr \<and> 0 \<le> s \<and> s \<le> j
      \<and> run = map (\<lambda>c. (r, c)) [s..j - 1]
      \<and> (s < j \<longrightarrow> j < nc) \<and> (r = 0 \<longrightarrow> j < nc \<longrightarrow> s = 0)
      \<and> within (link_rel g) (sw_attached nr nc r s) (sw_open r s j)
      \<and> connected_on (sw_attached nr nc r s) (link_rel g)
      \<and> connected_on (sw_open r s j) (link_rel g))"

definition sw_done :: "int \<Rightarrow> int \<Rightarrow> int \<Rightarrow> grid \<Rightarrow> bool" where
  "sw_done nr nc r g =
     (maze_inv nr nc g \<and> within (link_rel g) (sw_attached nr nc r 0) {}
      \<and> connected_on (sw_attached nr nc r 0) (link_rel g))"

definition el_core :: "int \<Rightarrow> int \<Rightarrow> grid \<Rightarrow> (cell \<Rightarrow> int option) \<Rightarrow> int \<Rightarrow> bool" where
  "el_core nr nc g lab n =
     (maze_inv nr nc g
      \<and> (\<forall>x y. (x, y) \<in> link_rel g \<longrightarrow> lab x \<noteq> None)
      \<and> (\<forall>x y u v. lab x = Some u \<longrightarrow> lab y = Some v \<longrightarrow> (u = v) = ((x, y) \<in> (link_rel g)\<^sup>*))
      \<and> (\<forall>x v. lab x = Some v \<longrightarrow> v \<le> n))"

definition el_front :: "(cell \<Rightarrow> int option) \<Rightarrow> int \<Rightarrow> bool" where
  "el_front lab r = (\<forall>x v. lab x = Some v \<longrightarrow> (\<exists>c. lab (r, c) = Some v))"

definition el_assigning ::
  "int \<Rightarrow> int \<Rightarrow> int \<Rightarrow> int \<Rightarrow> grid \<Rightarrow> (cell \<Rightarrow> int option) \<Rightarrow> int \<Rightarrow> bool" where
  "el_assigning nr nc r j g lab n =
     (el_core nr nc g lab n
      \<and> (\<forall>x. lab x \<noteq> None \<longrightarrow> in_grid nr nc x \<and> row x \<le> r)
      \<and> (\<forall>x. in_grid nr nc x \<longrightarrow> row x < r \<or> (row x = r \<and> col x < j) \<longrightarrow> lab x \<noteq> None)
      \<and> el_front lab r
      \<and> (\<forall>c c' v. lab (r, c) = Some v \<longrightarrow> lab (r, c') = Some v \<longrightarrow> c = c'))"

definition el_joining ::
  "int \<Rightarrow> int \<Rightarrow> int \<Rightarrow> int \<Rightarrow> grid \<Rightarrow> (cell \<Rightarrow> int option) \<Rightarrow> int \<Rightarrow> bool" where
  "el_joining nr nc r i g lab n =
     (el_core nr nc g lab n
      \<and> (\<forall>x. lab x \<noteq> None \<longleftrightarrow> in_grid nr nc x \<and> row x \<le> r)
      \<and> el_front lab r
      \<and> (\<forall>a b v. a < b \<longrightarrow> lab (r, a) = Some v \<longrightarrow> lab (r, b) = Some v \<longrightarrow>
             b \<le> i \<and> (\<forall>m. a \<le> m \<longrightarrow> m \<le> b \<longrightarrow> lab (r, m) = Some v)))"

definition el_carving ::
  "int \<Rightarrow> int \<Rightarrow> int \<Rightarrow> int set \<Rightarrow> (cell \<Rightarrow> int option) \<Rightarrow> grid \<Rightarrow> (cell \<Rightarrow> int option) \<Rightarrow> int
     \<Rightarrow> bool" where
  "el_carving nr nc r ids lab0 g lab n =
     (el_core nr nc g lab n
      \<and> (\<forall>x. lab x \<noteq> None \<longrightarrow> in_grid nr nc x \<and> row x \<le> r + 1)
      \<and> (\<forall>x. in_grid nr nc x \<longrightarrow> row x \<le> r \<longrightarrow> lab x \<noteq> None)
      \<and> el_front lab r
      \<and> (\<forall>c. lab (r, c) = lab0 (r, c))
      \<and> (\<forall>c v. lab (r + 1, c) = Some v \<longrightarrow> lab (r, c) = Some v \<and> v \<in> ids)
      \<and> (\<forall>v. v \<in> ids \<longrightarrow> (\<exists>c. lab (r + 1, c) = Some v))
      \<and> (\<forall>c c' v. lab (r + 1, c) = Some v \<longrightarrow> lab (r + 1, c') = Some v \<longrightarrow> c = c'))"

definition el_block :: "(cell \<Rightarrow> int option) \<Rightarrow> int \<Rightarrow> int \<Rightarrow> cell \<Rightarrow> bool" where
  "el_block lab r i x = (\<exists>c v. 0 \<le> c \<and> c \<le> i \<and> lab x = Some v \<and> lab (r, c) = Some v)"

definition el_closing ::
  "int \<Rightarrow> int \<Rightarrow> int \<Rightarrow> int \<Rightarrow> (cell \<times> cell) set \<Rightarrow> (cell \<Rightarrow> int option) \<Rightarrow> grid \<Rightarrow> bool" where
  "el_closing nr nc r i L0 lab g =
     (maze_inv nr nc g \<and> L0 \<subseteq> link_rel g
      \<and> (\<forall>x y. (x, y) \<in> (link_rel g)\<^sup>* \<longrightarrow>
             (x, y) \<in> L0\<^sup>* \<or> (el_block lab r i x \<and> el_block lab r i y))
      \<and> (\<forall>c c'. 0 \<le> c \<longrightarrow> c \<le> i \<longrightarrow> 0 \<le> c' \<longrightarrow> c' \<le> i \<longrightarrow>
             ((r, c), (r, c')) \<in> (link_rel g)\<^sup>*))"

definition el_rows :: "int \<Rightarrow> int \<Rightarrow> int \<Rightarrow> grid \<Rightarrow> (cell \<Rightarrow> int option) \<Rightarrow> int \<Rightarrow> bool" where
  "el_rows nr nc r g lab n =
     (if r < nr then el_assigning nr nc r 0 g lab n
      else maze_inv nr nc g \<and> connected_grid nr nc g)"

definition el_groups :: "(cell \<Rightarrow> int option) \<Rightarrow> cell list \<Rightarrow> (int \<times> cell list) list \<Rightarrow> bool" where
  "el_groups lab rw G =
     (distinct (map fst G)
      \<and> (\<forall>v ms. map_of G v = Some ms \<longrightarrow> ms \<noteq> [] \<and> (\<forall>m \<in> set ms. m \<in> set rw \<and> lab m = Some v))
      \<and> (\<forall>c \<in> set rw. \<exists>v. lab c = Some v \<and> map_of G v \<noteq> None))"



text \<open>
  The three makers share the method \<open>make_maze\<close>; the class of the object selects the body.
\<close>

datatype maze_maker = BinaryTreeMazeMaker | SidewinderMazeMaker | EllerMazeMaker

definition make_maze :: "maze_maker \<Rightarrow> random_source \<Rightarrow> grid \<Rightarrow> error + grid" where
  "make_maze m rnd g =
     (case m of
        BinaryTreeMazeMaker \<Rightarrow> binary_tree_make_maze rnd g
      | SidewinderMazeMaker \<Rightarrow> sidewinder_make_maze rnd g
      | EllerMazeMaker \<Rightarrow> eller_make_maze rnd g)"

text \<open>
  A spanning tree over the nodes \<open>V\<close>: the edges join nodes of \<open>V\<close> and go both ways, there
  is one undirected edge less than there are nodes, no cycle, and every node is connected to
  every other one.
\<close>

definition spanning_tree :: "'a set \<Rightarrow> ('a \<times> 'a) set \<Rightarrow> bool" where
  "spanning_tree V E =
     (E \<subseteq> V \<times> V \<and> sym E \<and> card (undirected E) + 1 = card V \<and> (\<forall>p. \<not> cycle E p)
      \<and> (\<forall>a \<in> V. \<forall>b \<in> V. (a, b) \<in> E\<^sup>*))"

(*DEFS-END*)

section \<open>Construction and lookup\<close>

lemma and_then_Inr [simp]: "and_then (Inr v) f = f v"
  by (simp add: and_then_def)

lemma and_then_Inl [simp]: "and_then (Inl e) f = Inl e"
  by (simp add: and_then_def)

lemma for_each_rule_gen:
  assumes step: "\<And>pre x post s. xs0 = pre @ x # post \<Longrightarrow> I pre s \<Longrightarrow>
                   \<exists>s'. body x s = Inr s' \<and> I (pre @ [x]) s'"
  shows "xs0 = pre @ xs \<Longrightarrow> I pre s \<Longrightarrow> \<exists>s'. for_each xs body s = Inr s' \<and> I xs0 s'"
proof (induction xs arbitrary: pre s)
  case Nil
  then show ?case by simp
next
  case (Cons x xs)
  from step [OF Cons.prems(1) Cons.prems(2)]
  obtain s1 where s1: "body x s = Inr s1" "I (pre @ [x]) s1" by blast
  from Cons.prems(1) have "xs0 = (pre @ [x]) @ xs" by simp
  from Cons.IH [OF this s1(2)] s1(1) show ?case by simp
qed

lemma for_each_rule:
  assumes "I [] s"
    and "\<And>pre x post s. xs = pre @ x # post \<Longrightarrow> I pre s \<Longrightarrow>
                   \<exists>s'. body x s = Inr s' \<and> I (pre @ [x]) s'"
  shows "\<exists>s'. for_each xs body s = Inr s' \<and> I xs s'"
  using for_each_rule_gen [of xs I body "[]" xs s] assms by simp

lemma length_py_range [simp]: "length (py_range n) = nat n"
  by (simp add: py_range_def)

lemma nth_py_range [simp]: "k < nat n \<Longrightarrow> py_range n ! k = int k"
  by (simp add: py_range_def)

lemma set_py_range [simp]: "set (py_range n) = {i. 0 \<le> i \<and> i < n}"
proof -
  have "i \<in> int ` {0..<nat n} \<longleftrightarrow> 0 \<le> i \<and> i < n" for i
  proof
    assume "i \<in> int ` {0..<nat n}"
    then show "0 \<le> i \<and> i < n" by auto
  next
    assume "0 \<le> i \<and> i < n"
    then have "nat i \<in> {0..<nat n}" "i = int (nat i)" by auto
    then show "i \<in> int ` {0..<nat n}" by blast
  qed
  then show ?thesis by (auto simp: py_range_def)
qed

lemma distinct_py_range [simp]: "distinct (py_range n)"
  by (simp add: py_range_def distinct_map)

lemma index_in_range: "0 \<le> i \<Longrightarrow> i < int (length xs) \<Longrightarrow> index xs i = Inr (xs ! nat i)"
  by (simp add: index_def)

lemma get_cell_shape:
  assumes "shape nr nc g"
  shows "get_cell g r c = Inr (cell_at nr nc r c)"
  using assms
  by (auto simp: get_cell_def shape_def grid_rows_def index_in_range cell_at_def in_grid_def
      row_def col_def)

lemma set_grid_cells [simp]: "set (grid_cells nr nc) = {c. in_grid nr nc c}"
  by (auto simp: grid_cells_def grid_rows_def in_grid_def row_def col_def)

lemma get_cell_neighbor_cells_update [simp]:
  "get_cell (g\<lparr>neighbor_cells := f\<rparr>) r c = get_cell g r c"
  by (simp add: get_cell_def)

lemma distinct_concat_pairs:
  "distinct rs \<Longrightarrow> distinct cs \<Longrightarrow> distinct (concat (map (\<lambda>r. map (\<lambda>c. (r, c)) cs) rs))"
  by (induction rs) (auto simp: distinct_map inj_on_def)

lemma distinct_grid_cells [simp]: "distinct (grid_cells nr nc)"
  by (simp add: grid_cells_def grid_rows_def distinct_concat_pairs)

lemma directions_distinct [simp]:
  "NORTH \<noteq> SOUTH" "NORTH \<noteq> EAST" "NORTH \<noteq> WEST" "SOUTH \<noteq> EAST" "SOUTH \<noteq> WEST" "EAST \<noteq> WEST"
  "SOUTH \<noteq> NORTH" "EAST \<noteq> NORTH" "WEST \<noteq> NORTH" "EAST \<noteq> SOUTH" "WEST \<noteq> SOUTH" "WEST \<noteq> EAST"
  by (simp_all add: NORTH_def SOUTH_def EAST_def WEST_def)

lemma configure_cell_shape:
  assumes "shape nr nc g"
  shows "configure_cell c g =
           Inr (g\<lparr>neighbor_cells := (neighbor_cells g)(c :=
                  (neighbor_cells g c)(NORTH \<mapsto> cell_at nr nc (row c - 1) (col c),
                     SOUTH \<mapsto> cell_at nr nc (row c + 1) (col c),
                     EAST \<mapsto> cell_at nr nc (row c) (col c + 1),
                     WEST \<mapsto> cell_at nr nc (row c) (col c - 1)))\<rparr>)"
  using assms
  by (simp add: configure_cell_def set_neighbor_def get_cell_shape [OF assms])

lemma Grid_fresh: "Grid nr nc = Inr (fresh_grid nr nc)"
proof -
  define base where "base = prepare_grid
       \<lparr>num_rows = nr, num_cols = nc, rows = [],
        neighbor_cells = (\<lambda>_. Map.empty), links = (\<lambda>_. []),
        distance = (\<lambda>_. 0), previous = (\<lambda>_. None)\<rparr>"
  define I where "I = (\<lambda>pre g. g = base\<lparr>neighbor_cells :=
                         (\<lambda>c. if c \<in> set pre then wired nr nc c else Map.empty)\<rparr>)"
  have base: "shape nr nc base" "neighbor_cells base = (\<lambda>_. Map.empty)"
    "all_cells base = grid_cells nr nc"
    by (simp_all add: base_def prepare_grid_def shape_def grid_rows_def all_cells_def
        grid_cells_def)
  have step: "\<exists>s'. configure_cell x s = Inr s' \<and> I (pre @ [x]) s'"
    if "all_cells base = pre @ x # post" "I pre s" for pre x post s
  proof -
    from that(2) have s: "s = base\<lparr>neighbor_cells :=
                         (\<lambda>c. if c \<in> set pre then wired nr nc c else Map.empty)\<rparr>"
      by (simp add: I_def)
    have sh: "shape nr nc s" using base(1) by (simp add: s shape_def)
    have "x \<in> set (grid_cells nr nc)" using that(1) base(3) by (metis in_set_conv_decomp)
    then have x: "in_grid nr nc x" by simp
    have "distinct (all_cells base)"
      unfolding base(3) by simp
    with that(1) have nx: "x \<notin> set pre" by auto
    have "I (pre @ [x]) (s\<lparr>neighbor_cells := (neighbor_cells s)(x :=
                  (neighbor_cells s x)(NORTH \<mapsto> cell_at nr nc (row x - 1) (col x),
                     SOUTH \<mapsto> cell_at nr nc (row x + 1) (col x),
                     EAST \<mapsto> cell_at nr nc (row x) (col x + 1),
                     WEST \<mapsto> cell_at nr nc (row x) (col x - 1)))\<rparr>)"
      unfolding I_def s using x nx by (auto simp: wired_def fun_eq_iff)
    with configure_cell_shape [OF sh, of x] show ?thesis by simp
  qed
  have "I [] base" by (simp add: I_def base(2))
  have "\<exists>s'. for_each (all_cells base) configure_cell base = Inr s' \<and> I (all_cells base) s'"
    by (rule for_each_rule, fact, rule step)
  then obtain s' where s': "for_each (all_cells base) configure_cell base = Inr s'" "I (all_cells base) s'"
    by auto
  have "(\<lambda>c. if c \<in> set (all_cells base) then wired nr nc c else Map.empty) = wired nr nc"
    unfolding base(3) by (auto simp: wired_def fun_eq_iff)
  with s'(2) have "s' = base\<lparr>neighbor_cells := wired nr nc\<rparr>"
    by (simp add: I_def)
  then have "s' = fresh_grid nr nc"
    by (simp add: fresh_grid_def base_def prepare_grid_def grid_rows_def)
  with s'(1) show ?thesis
    by (simp add: Grid_def configure_cells_def base_def)
qed

lemma all_cells_fresh_grid [simp]: "all_cells (fresh_grid nr nc) = grid_cells nr nc"
  by (simp add: all_cells_def fresh_grid_def grid_cells_def)

lemma shape_fresh_grid [simp]: "shape nr nc (fresh_grid nr nc)"
  by (simp add: shape_def fresh_grid_def)

lemma length_grid_cells: "length (grid_cells nr nc) = nat nr * nat nc"
proof -
  have "length (concat (map (\<lambda>r. map (\<lambda>c. (r, c)) cs) rs)) = length rs * length cs"
    for rs cs :: "int list"
    by (induction rs) simp_all
  then show ?thesis by (simp add: grid_cells_def grid_rows_def)
qed

lemma filter_eq_singleton:
  "distinct xs \<Longrightarrow> x \<in> set xs \<Longrightarrow> filter (\<lambda>y. y = x) xs = [x]"
proof (induction xs)
  case Nil
  then show ?case by simp
next
  case (Cons a xs)
  have "a \<notin> set xs \<Longrightarrow> filter (\<lambda>y. y = a) xs = []"
    by (auto simp: filter_empty_conv)
  with Cons show ?case by auto
qed

text \<open>
  C5 (as the claim states it, refuted): construction with a row or column count that is
  not positive does not fail; it returns a grid without cells.
\<close>

theorem Grid_nonpositive_succeeds:
  "Grid 0 3 = Inr (fresh_grid 0 3) \<and> all_cells (fresh_grid 0 3) = []
   \<and> Grid 2 (-1) = Inr (fresh_grid 2 (-1)) \<and> all_cells (fresh_grid 2 (-1)) = []"
  by (simp add: Grid_fresh grid_cells_def grid_rows_def py_range_def)

text \<open>
  C5 (amended): construction never fails. The grid holds exactly one cell for every pair
  (row, col) in range, so \<open>rows * cols\<close> cells when both counts are at least 1, and no cell
  when a count is zero or negative.
\<close>

theorem Grid_allocates:
  "\<exists>g. Grid nr nc = Inr g
     \<and> length (all_cells g) = nat nr * nat nc
     \<and> distinct (all_cells g)
     \<and> set (all_cells g) = {c. 0 \<le> row c \<and> row c < nr \<and> 0 \<le> col c \<and> col c < nc}"
  by (simp add: Grid_fresh length_grid_cells in_grid_def)

text \<open>
  C9: on a constructed grid, \<open>get_cell\<close> with a coordinate out of range returns \<open>None\<close>
  and raises nothing; with coordinates in range it returns the cell of that row and column,
  which is the only cell of the grid with these coordinates.
\<close>

theorem get_cell_lookup:
  "\<exists>g. Grid nr nc = Inr g \<and>
     (\<forall>r c. (r < 0 \<or> nr \<le> r \<or> c < 0 \<or> nc \<le> c \<longrightarrow> get_cell g r c = Inr None)
          \<and> (0 \<le> r \<and> r < nr \<and> 0 \<le> c \<and> c < nc \<longrightarrow>
               (\<exists>x. get_cell g r c = Inr (Some x) \<and> row x = r \<and> col x = c
                  \<and> filter (\<lambda>y. row y = r \<and> col y = c) (all_cells g) = [x])))"
proof -
  have "filter (\<lambda>y. row y = r \<and> col y = c) (grid_cells nr nc) = [(r, c)]"
    if "0 \<le> r \<and> r < nr \<and> 0 \<le> c \<and> c < nc" for r c
  proof -
    have "(\<lambda>y. row y = r \<and> col y = c) = (\<lambda>y. y = (r, c))"
      by (auto simp: row_def col_def)
    moreover have "(r, c) \<in> set (grid_cells nr nc)"
      using that by (simp add: in_grid_def row_def col_def)
    ultimately show ?thesis
      by (simp add: filter_eq_singleton)
  qed
  then show ?thesis
    by (auto simp: Grid_fresh get_cell_shape [OF shape_fresh_grid] cell_at_def in_grid_def
        row_def col_def)
qed

theorem get_cell_lookup_witness:
  "\<exists>g. Grid 2 3 = Inr g \<and> get_cell g 2 0 = Inr None \<and> get_cell g 0 (-1) = Inr None
     \<and> (\<exists>x. get_cell g 1 2 = Inr (Some x) \<and> row x = 1 \<and> col x = 2
           \<and> filter (\<lambda>y. row y = 1 \<and> col y = 2) (all_cells g) = [x])"
proof -
  from get_cell_lookup [of 2 3] obtain g where g: "Grid 2 3 = Inr g"
    and a: "\<And>r c. r < 0 \<or> 2 \<le> r \<or> c < 0 \<or> 3 \<le> c \<Longrightarrow> get_cell g r c = Inr None"
    and b: "\<And>r c. 0 \<le> r \<and> r < 2 \<and> 0 \<le> c \<and> c < 3 \<Longrightarrow>
               (\<exists>x. get_cell g r c = Inr (Some x) \<and> row x = r \<and> col x = c
                  \<and> filter (\<lambda>y. row y = r \<and> col y = c) (all_cells g) = [x])"
    by blast
  have "get_cell g 2 0 = Inr None" "get_cell g 0 (-1) = Inr None"
    by (rule a, simp)+
  moreover from b [of 1 2]
  have "\<exists>x. get_cell g 1 2 = Inr (Some x) \<and> row x = 1 \<and> col x = 2
           \<and> filter (\<lambda>y. row y = 1 \<and> col y = 2) (all_cells g) = [x]"
    by simp
  ultimately show ?thesis using g by blast
qed

section \<open>The depth-first solver\<close>

text \<open>
  C10: with the start and the end the same cell, \<open>solve_maze\<close> returns the path that holds
  this cell alone, whatever the links of the grid are.
\<close>

theorem solve_maze_same_cell: "solve_maze g s s = Some (Some [s])"
  unfolding solve_maze_def
  by (subst solve_maze_loop.simps) simp

section \<open>The depth-first solver\<close>

lemma linked_path_snoc:
  "linked_path g (p @ [n]) = (linked_path g p \<and> (p = [] \<or> is_linked g (last p) n))"
  by (induction g p rule: linked_path.induct) auto

lemma dfs_inv_step:
  assumes inv: "dfs_inv g V start end_cell (rest @ [(c, p)]) visited"
    and closed: "\<forall>c \<in> V. set (links g c) \<subseteq> V"
    and ne: "c \<noteq> end_cell"
  shows "dfs_inv g V start end_cell
           (rest @ map (\<lambda>n. (n, p @ [n])) (filter (\<lambda>n. n \<notin> insert c visited) (links g c)))
           (insert c visited)"
proof -
  let ?vis = "insert c visited"
  let ?new = "map (\<lambda>n. (n, p @ [n])) (filter (\<lambda>n. n \<notin> ?vis) (links g c))"
  let ?st = "rest @ [(c, p)]"
  note inv' = inv [unfolded dfs_inv_def]
  from inv' have vis1: "visited \<subseteq> V"
    by (elim conjE)
  from inv' have vis2: "end_cell \<notin> visited"
    by (elim conjE)
  note vis = vis1 vis2
  from inv' have ent0: "\<forall>e \<in> set ?st. good_entry g V start visited e"
    by (elim conjE)
  from inv' have st: "start \<in> visited \<or> start \<in> fst ` set ?st"
    by (elim conjE)
  from inv' have J0: "\<forall>v \<in> visited. \<forall>n \<in> set (links g v). n \<in> visited \<or> n \<in> fst ` set ?st"
    by (elim conjE)
  from inv' have K0: "\<forall>i < length ?st. fst (?st ! i) \<in> visited \<longrightarrow>
            (\<forall>n \<in> set (links g (fst (?st ! i))).
               n \<in> visited \<or> n \<in> fst ` set (drop (Suc i) ?st))"
    by (elim conjE)
  have ent: "good_entry g V start visited e" if "e \<in> set ?st" for e
    using ent0 that by (rule bspec)
  have J: "n \<in> visited \<or> n \<in> fst ` set ?st" if "v \<in> visited" "n \<in> set (links g v)" for v n
    using J0 that by blast
  have K: "n \<in> visited \<or> n \<in> fst ` set (drop (Suc i) ?st)"
    if "i < length ?st" "fst (?st ! i) \<in> visited" "n \<in> set (links g (fst (?st ! i)))" for i n
    using K0 that by blast
  from ent [of "(c, p)"] have top: "c \<in> V" "p \<noteq> []" "hd p = start" "last p = c" "distinct p"
    "set (butlast p) \<subseteq> visited" "linked_path g p"
    by (simp_all add: good_entry_def)
  have setp: "set p \<subseteq> ?vis"
  proof -
    have "p = butlast p @ [last p]" using top(2) by simp
    then have "set p = set (butlast p @ [last p])" by simp
    then have "set p = set (butlast p) \<union> {c}" using top(4) by simp
    with top(6) show ?thesis by auto
  qed
  have fst_new: "fst ` set ?new = {n \<in> set (links g c). n \<notin> ?vis}"
    by force
  have 1: "?vis \<subseteq> V" using vis(1) top(1) by simp
  have 2: "end_cell \<notin> ?vis" using vis(2) ne by simp
  have 3: "good_entry g V start ?vis e" if "e \<in> set (rest @ ?new)" for e
  proof (cases "e \<in> set rest")
    case True
    with ent [of e] show ?thesis by (auto simp: good_entry_def)
  next
    case False
    with that obtain n where n: "e = (n, p @ [n])" "n \<in> set (links g c)" "n \<notin> ?vis"
      by auto
    have "n \<in> V" using closed top(1) n(2) by blast
    moreover have "n \<notin> set p" using setp n(3) by blast
    ultimately show ?thesis
      using top n setp by (simp add: good_entry_def linked_path_snoc is_linked_def)
  qed
  have 4: "start \<in> ?vis \<or> start \<in> fst ` set (rest @ ?new)"
    using st by auto
  have 5: "n \<in> ?vis \<or> n \<in> fst ` set (rest @ ?new)"
    if "v \<in> ?vis" "n \<in> set (links g v)" for v n
  proof (cases "v = c")
    case True
    with that(2) show ?thesis unfolding set_append image_Un fst_new by blast
  next
    case False
    with that have "v \<in> visited" by simp
    from J [OF this that(2)] show ?thesis by auto
  qed
  have 6: "n \<in> ?vis \<or> n \<in> fst ` set (drop (Suc i) (rest @ ?new))"
    if i: "i < length (rest @ ?new)" and v: "fst ((rest @ ?new) ! i) \<in> ?vis"
      and n: "n \<in> set (links g (fst ((rest @ ?new) ! i)))" for i n
  proof (cases "i < length rest")
    case True
    then have nth: "(rest @ ?new) ! i = rest ! i" "(rest @ [(c, p)]) ! i = rest ! i"
      by (simp_all add: nth_append)
    have dr: "drop (Suc i) (rest @ ?new) = drop (Suc i) rest @ ?new"
      "drop (Suc i) (rest @ [(c, p)]) = drop (Suc i) rest @ [(c, p)]"
      using True by simp_all
    have n': "n \<in> set (links g (fst (rest ! i)))" using n unfolding nth(1) .
    have v': "fst (rest ! i) \<in> ?vis" using v unfolding nth(1) .
    show ?thesis
    proof (cases "fst (rest ! i) \<in> visited")
      case True
      have "n \<in> visited \<or> n \<in> fst ` set (drop (Suc i) (rest @ [(c, p)]))"
      proof (rule K)
        show "i < length (rest @ [(c, p)])" using \<open>i < length rest\<close> by simp
        show "fst ((rest @ [(c, p)]) ! i) \<in> visited" unfolding nth(2) by (rule True)
        show "n \<in> set (links g (fst ((rest @ [(c, p)]) ! i)))" unfolding nth(2) by (rule n')
      qed
      then show ?thesis unfolding dr by auto
    next
      case False
      with v' have "fst (rest ! i) = c" by simp
      with n' have "n \<in> set (links g c)" by simp
      then show ?thesis unfolding dr set_append image_Un fst_new by blast
    qed
  next
    case False
    with i have "i - length rest < length ?new" by simp
    then have "?new ! (i - length rest) \<in> set ?new" by (rule nth_mem)
    with False have "(rest @ ?new) ! i \<in> set ?new"
      by (simp add: nth_append)
    then have "fst ((rest @ ?new) ! i) \<in> fst ` set ?new" by (rule imageI)
    with v show ?thesis unfolding fst_new by blast
  qed
  show ?thesis
    unfolding dfs_inv_def
  proof (intro conjI ballI allI impI)
    show "?vis \<subseteq> V" by (rule 1)
    show "end_cell \<notin> ?vis" by (rule 2)
    show "good_entry g V start ?vis e" if "e \<in> set (rest @ ?new)" for e
      using that by (rule 3)
    show "start \<in> ?vis \<or> start \<in> fst ` set (rest @ ?new)" by (rule 4)
    show "n \<in> ?vis \<or> n \<in> fst ` set (rest @ ?new)"
      if "v \<in> ?vis" "n \<in> set (links g v)" for v n
      using that by (rule 5)
    show "n \<in> ?vis \<or> n \<in> fst ` set (drop (Suc i) (rest @ ?new))"
      if "i < length (rest @ ?new)" "fst ((rest @ ?new) ! i) \<in> ?vis"
        "n \<in> set (links g (fst ((rest @ ?new) ! i)))" for i n
      using that by (rule 6)
  qed
qed


lemma closed_set_rtrancl:
  assumes "(a, b) \<in> R\<^sup>*" "a \<in> S" "\<And>x y. x \<in> S \<Longrightarrow> (x, y) \<in> R \<Longrightarrow> y \<in> S"
  shows "b \<in> S"
  using assms by (induction rule: rtrancl_induct) auto

lemma dfs_loop_result:
  assumes fin: "finite V" and closed: "\<forall>c \<in> V. set (links g c) \<subseteq> V"
  shows "dfs_inv g V start end_cell stack visited \<Longrightarrow>
           \<exists>r. solve_maze_loop g end_cell stack visited = Some r \<and> dfs_post g start end_cell r"
proof -
  define m where "m = (\<lambda>x :: (cell \<times> cell list) list \<times> cell set. (card (V - snd x), length (fst x)))"
  have wf: "wf (inv_image (less_than <*lex*> less_than) m)"
    by (intro wf_inv_image wf_lex_prod wf_less_than)
  have main: "dfs_inv g V start end_cell (fst x) (snd x) \<Longrightarrow>
           \<exists>r. solve_maze_loop g end_cell (fst x) (snd x) = Some r \<and> dfs_post g start end_cell r" for x
  proof (induction x rule: wf_induct_rule [OF wf])
    case (1 x)
    obtain stack visited where x: "x = (stack, visited)" by (cases x)
    from "1.prems" have inv: "dfs_inv g V start end_cell stack visited" by (simp add: x)
    show ?case
    proof (cases "stack = []")
      case True
      from inv have a: "end_cell \<notin> visited" and b: "start \<in> visited"
        and c: "\<forall>v \<in> visited. \<forall>n \<in> set (links g v). n \<in> visited"
        unfolding dfs_inv_def True by simp_all
      have "(start, end_cell) \<notin> (link_rel g)\<^sup>*"
      proof
        assume "(start, end_cell) \<in> (link_rel g)\<^sup>*"
        then have "end_cell \<in> visited"
        proof (rule closed_set_rtrancl)
          show "start \<in> visited" by (rule b)
          show "y \<in> visited" if "x \<in> visited" "(x, y) \<in> link_rel g" for x y
            using c that by (auto simp: link_rel_def is_linked_def)
        qed
        with a show False by simp
      qed
      moreover have "solve_maze_loop g end_cell [] visited = Some None"
        by (subst solve_maze_loop.simps) simp
      ultimately show ?thesis by (simp add: x True dfs_post_def)
    next
      case False
      then obtain rest c p where stack: "stack = rest @ [(c, p)]"
        by (metis rev_exhaust surj_pair)
      show ?thesis
      proof (cases "c = end_cell")
        case True
        have "good_entry g V start visited (c, p)"
          using inv unfolding dfs_inv_def stack by simp
        then have "dfs_post g start end_cell (Some p)"
          using True by (simp add: good_entry_def dfs_post_def)
        moreover have "solve_maze_loop g end_cell stack visited = Some (Some p)"
          by (subst solve_maze_loop.simps) (simp add: stack True)
        ultimately show ?thesis by (simp add: x)
      next
        case ne: False
        let ?vis = "insert c visited"
        let ?new = "map (\<lambda>n. (n, p @ [n])) (filter (\<lambda>n. n \<notin> ?vis) (links g c))"
        have inv2: "dfs_inv g V start end_cell (rest @ ?new) ?vis"
          using inv ne unfolding stack by (intro dfs_inv_step closed)
        have cV: "c \<in> V"
          using inv unfolding dfs_inv_def stack by (simp add: good_entry_def)
        have less: "((rest @ ?new, ?vis), x) \<in> inv_image (less_than <*lex*> less_than) m"
        proof (cases "c \<in> visited")
          case True
          then have vis: "?vis = visited" by auto
          note inv' = inv [unfolded dfs_inv_def]
          from inv' have K0: "\<forall>i < length stack. fst (stack ! i) \<in> visited \<longrightarrow>
            (\<forall>n \<in> set (links g (fst (stack ! i))).
               n \<in> visited \<or> n \<in> fst ` set (drop (Suc i) stack))"
            by (elim conjE)
          have "n \<in> visited" if "n \<in> set (links g c)" for n
          proof -
            have "length rest < length stack" "stack ! length rest = (c, p)"
              by (simp_all add: stack)
            with K0 True that
            have "n \<in> visited \<or> n \<in> fst ` set (drop (Suc (length rest)) stack)"
              by (metis fst_conv)
            then show ?thesis by (simp add: stack)
          qed
          then have "filter (\<lambda>n. n \<notin> ?vis) (links g c) = []"
            by (auto simp: filter_empty_conv)
          then have "rest @ ?new = rest" by simp
          then show ?thesis
            unfolding vis by (simp add: m_def x stack)
        next
          case False
          have "V - ?vis \<subset> V - visited" using cV False by blast
          then have "card (V - ?vis) < card (V - visited)"
            using fin by (intro psubset_card_mono) auto
          then show ?thesis by (simp add: m_def x)
        qed
        from "1.IH" [OF less] inv2
        obtain r where r: "solve_maze_loop g end_cell (rest @ ?new) ?vis = Some r"
          "dfs_post g start end_cell r"
          by auto
        have "solve_maze_loop g end_cell stack visited = solve_maze_loop g end_cell (rest @ ?new) ?vis"
          by (subst solve_maze_loop.simps) (simp add: stack ne)
        with r show ?thesis by (simp add: x)
      qed
    qed
  qed
  assume "dfs_inv g V start end_cell stack visited"
  with main [of "(stack, visited)"] show ?thesis by simp
qed

lemma dfs_inv_initial:
  "start \<in> V \<Longrightarrow> dfs_inv g V start end_cell [(start, [start])] {}"
  by (simp add: dfs_inv_def good_entry_def)

text \<open>
  C3: on a grid whose links stay inside the grid, if the end can be reached from the start
  along links, \<open>solve_maze\<close> returns a path; the path starts at the start, ends at the
  end, every cell of it is linked to the next one, and no cell occurs twice.
\<close>

theorem solve_maze_path:
  assumes "start_cell \<in> set (all_cells g)"
    and "\<forall>c \<in> set (all_cells g). set (links g c) \<subseteq> set (all_cells g)"
    and "(start_cell, end_cell) \<in> (link_rel g)\<^sup>*"
  shows "\<exists>p. solve_maze g start_cell end_cell = Some (Some p)
           \<and> p \<noteq> [] \<and> hd p = start_cell \<and> last p = end_cell
           \<and> linked_path g p \<and> distinct p"
proof -
  have "dfs_inv g (set (all_cells g)) start_cell end_cell [(start_cell, [start_cell])] {}"
    using assms(1) by (rule dfs_inv_initial)
  from dfs_loop_result [OF _ assms(2) this]
  obtain r where r: "solve_maze g start_cell end_cell = Some r" "dfs_post g start_cell end_cell r"
    by (auto simp: solve_maze_def)
  with assms(3) show ?thesis
    by (cases r) (simp_all add: dfs_post_def)
qed

lemma all_cells_two_cells: "set (all_cells two_cells) = {(0, 0), (0, 1)}"
  by (auto simp: two_cells_def all_cells_def fresh_grid_def grid_rows_def py_range_def)

theorem solve_maze_path_witness:
  "(0, 0) \<in> set (all_cells two_cells)
   \<and> (\<Union>c \<in> set (all_cells two_cells). set (links two_cells c)) \<subseteq> set (all_cells two_cells)
   \<and> ((0, 0), (0, 1)) \<in> (link_rel two_cells)\<^sup>*
   \<and> (\<exists>p. solve_maze two_cells (0, 0) (0, 1) = Some (Some p)
           \<and> p \<noteq> [] \<and> hd p = (0, 0) \<and> last p = (0, 1)
           \<and> linked_path two_cells p \<and> distinct p)"
proof -
  have a: "(0, 0) \<in> set (all_cells two_cells)"
    by (simp add: all_cells_two_cells)
  have b: "\<forall>c \<in> set (all_cells two_cells). set (links two_cells c) \<subseteq> set (all_cells two_cells)"
    unfolding all_cells_two_cells by (simp add: two_cells_def)
  have "((0, 0), (0, 1)) \<in> link_rel two_cells"
    by (simp add: link_rel_def is_linked_def two_cells_def)
  then have c: "((0, 0), (0, 1)) \<in> (link_rel two_cells)\<^sup>*" by (rule r_into_rtrancl)
  from b have b': "(\<Union>c \<in> set (all_cells two_cells). set (links two_cells c)) \<subseteq> set (all_cells two_cells)"
    by blast
  from solve_maze_path [OF a b c] a b' c show ?thesis by blast
qed

section \<open>The shortest-path solver\<close>

lemma get_cell_updates [simp]:
  "get_cell (g\<lparr>distance := d\<rparr>) r c = get_cell g r c"
  "get_cell (g\<lparr>previous := p\<rparr>) r c = get_cell g r c"
  "get_cell (g\<lparr>links := l\<rparr>) r c = get_cell g r c"
  by (simp_all add: get_cell_def)

lemma all_cells_updates [simp]:
  "all_cells (g\<lparr>distance := d\<rparr>) = all_cells g"
  "all_cells (g\<lparr>previous := p\<rparr>) = all_cells g"
  "all_cells (g\<lparr>links := l\<rparr>) = all_cells g"
  by (simp_all add: all_cells_def)

lemma shape_updates [simp]:
  "shape nr nc (g\<lparr>distance := d\<rparr>) = shape nr nc g"
  "shape nr nc (g\<lparr>previous := p\<rparr>) = shape nr nc g"
  "shape nr nc (g\<lparr>links := l\<rparr>) = shape nr nc g"
  by (simp_all add: shape_def)

lemma same_maze_refl [simp]: "same_maze g g"
  by (simp add: same_maze_def)

lemma same_maze_trans: "same_maze g g' \<Longrightarrow> same_maze g' g'' \<Longrightarrow> same_maze g g''"
  by (simp add: same_maze_def)

lemma same_maze_get_cell: "same_maze g g' \<Longrightarrow> get_cell g' r c = get_cell g r c"
  by (simp add: same_maze_def get_cell_def)

lemma same_maze_all_cells: "same_maze g g' \<Longrightarrow> all_cells g' = all_cells g"
  by (simp add: same_maze_def all_cells_def)

lemma same_maze_shape: "same_maze g g' \<Longrightarrow> shape nr nc g \<Longrightarrow> shape nr nc g'"
  by (simp add: same_maze_def shape_def)

lemma shape_all_cells: "shape nr nc g \<Longrightarrow> all_cells g = grid_cells nr nc"
  by (simp add: shape_def all_cells_def grid_cells_def)

lemma fold_set_distance:
  "fold (\<lambda>c g. g\<lparr>distance := (distance g)(c := d)\<rparr>) xs g =
     g\<lparr>distance := (\<lambda>c. if c \<in> set xs then d else distance g c)\<rparr>"
proof (induction xs arbitrary: g)
  case Nil
  then show ?case by simp
next
  case (Cons x xs)
  let ?g1 = "g\<lparr>distance := (distance g)(x := d)\<rparr>"
  have "fold (\<lambda>c g. g\<lparr>distance := (distance g)(c := d)\<rparr>) (x # xs) g =
        ?g1\<lparr>distance := (\<lambda>c. if c \<in> set xs then d else distance ?g1 c)\<rparr>"
    by (simp add: Cons.IH)
  also have "\<dots> = g\<lparr>distance := (\<lambda>c. if c \<in> set xs then d else distance ?g1 c)\<rparr>"
    by simp
  also have "\<dots> = g\<lparr>distance := (\<lambda>c. if c \<in> set (x # xs) then d else distance g c)\<rparr>"
    by (rule arg_cong [where f = "\<lambda>h. g\<lparr>distance := h\<rparr>"]) (auto simp: fun_eq_iff)
  finally show ?case .
qed

lemma initialize_shape:
  assumes "shape nr nc (grid s)" "1 \<le> nr" "1 \<le> nc"
  shows "initialize s =
           Inr (s\<lparr>grid := (grid s)\<lparr>distance :=
                  (\<lambda>c. if c = (0, 0) then 0 else if in_grid nr nc c then 10000
                        else distance (grid s) c)\<rparr>\<rparr>)"
proof -
  let ?g1 = "(grid s)\<lparr>distance := (\<lambda>c. if c \<in> set (all_cells (grid s)) then 10000
                                        else distance (grid s) c)\<rparr>"
  have "get_cell ?g1 0 0 = Inr (Some (0, 0))"
    using assms(2,3)
    by (simp add: get_cell_shape [OF assms(1)] cell_at_def in_grid_def row_def col_def)
  moreover have "(\<lambda>c. if c \<in> set (all_cells (grid s)) then 10000 else distance (grid s) c)((0, 0) := 0)
        = (\<lambda>c. if c = (0, 0) then 0 else if in_grid nr nc c then 10000 else distance (grid s) c)"
    by (auto simp: fun_eq_iff shape_all_cells [OF assms(1)])
  ultimately show ?thesis
    by (simp add: initialize_def fold_set_distance)
qed

lemma relax_neighbor_same_maze: "same_maze (grid s) (grid (relax_neighbor c n s))"
  by (simp add: relax_neighbor_def Let_def add_to_queue_def same_maze_def)

lemma relax_same_maze_gen: "same_maze (grid s) (grid (fold (relax_neighbor c) ns s))"
proof (induction ns arbitrary: s)
  case Nil
  then show ?case by simp
next
  case (Cons n ns)
  from relax_neighbor_same_maze [of s c n] Cons.IH [of "relax_neighbor c n s"]
  show ?case by (auto intro: same_maze_trans)
qed

lemma relax_same_maze: "same_maze (grid s) (grid (relax c s))"
  by (simp add: relax_def relax_same_maze_gen)

lemma sum_nat_update_less:
  fixes f :: "cell \<Rightarrow> int"
  assumes "finite V" "n \<in> V" "0 \<le> x" "x < f n"
  shows "(\<Sum>c \<in> V. nat ((f(n := x)) c)) < (\<Sum>c \<in> V. nat (f c))"
proof (rule sum_strict_mono_ex1)
  show "finite V" by fact
  show "\<forall>c \<in> V. nat ((f(n := x)) c) \<le> nat (f c)" using assms(4) by auto
  show "\<exists>c \<in> V. nat ((f(n := x)) c) < nat (f c)" using assms(2,3,4) by (intro bexI [of _ n]) auto
qed

lemma relax_neighbor_step:
  assumes fin: "finite V" and inv: "dij_inv V s" and c: "c \<in> V" and n: "n \<in> V"
  shows "dij_inv V (relax_neighbor c n s)
         \<and> (sum_dist V (relax_neighbor c n s) < sum_dist V s
            \<or> (distance (grid (relax_neighbor c n s)) = distance (grid s)
               \<and> queue (relax_neighbor c n s) = queue s))"
proof -
  let ?w = "weight s c n"
  let ?new = "distance (grid s) c + ?w"
  have w: "0 < ?w" by (simp add: weight_def)
  from inv c have dc: "0 \<le> distance (grid s) c" by (simp add: dij_inv_def)
  show ?thesis
  proof (cases "?new < distance (grid s) n")
    case True
    have "sum_dist V (relax_neighbor c n s) < sum_dist V s"
      using sum_nat_update_less [OF fin n, of ?new "distance (grid s)"] True dc w
      by (simp add: relax_neighbor_def Let_def add_to_queue_def sum_dist_def weight_def)
    moreover have "dij_inv V (relax_neighbor c n s)"
      using inv True dc w n
      by (auto simp: relax_neighbor_def Let_def add_to_queue_def dij_inv_def weight_def)
    ultimately show ?thesis by simp
  next
    case False
    then show ?thesis
      using inv by (simp add: relax_neighbor_def Let_def dij_inv_def weight_def)
  qed
qed

lemma no_worse_trans: "no_worse V s s1 \<Longrightarrow> no_worse V s1 s2 \<Longrightarrow> no_worse V s s2"
  unfolding no_worse_def sum_dist_def by (elim disjE conjE) simp_all

lemma fold_relax_neighbor_step:
  assumes fin: "finite V" and c: "c \<in> V"
  shows "dij_inv V s \<Longrightarrow> set ns \<subseteq> V \<Longrightarrow>
         dij_inv V (fold (relax_neighbor c) ns s) \<and> no_worse V s (fold (relax_neighbor c) ns s)"
proof (induction ns arbitrary: s)
  case Nil
  then show ?case by (simp add: no_worse_def)
next
  case (Cons n ns)
  let ?s1 = "relax_neighbor c n s"
  from Cons.prems have n: "n \<in> V" and ns: "set ns \<subseteq> V" by simp_all
  note st = relax_neighbor_step [OF fin Cons.prems(1) c n]
  from st have 1: "dij_inv V ?s1" by (rule conjunct1)
  from st have 2: "no_worse V s ?s1" unfolding no_worse_def by (rule conjunct2)
  note ih = Cons.IH [OF 1 ns]
  from ih have 3: "dij_inv V (fold (relax_neighbor c) ns ?s1)" by (rule conjunct1)
  from ih have 4: "no_worse V ?s1 (fold (relax_neighbor c) ns ?s1)" by (rule conjunct2)
  have 5: "fold (relax_neighbor c) (n # ns) s = fold (relax_neighbor c) ns ?s1" by simp
  show ?case unfolding 5 using 3 no_worse_trans [OF 2 4] by (rule conjI)
qed

lemma relax_step:
  assumes fin: "finite V" and c: "c \<in> V" and inv: "dij_inv V s"
  shows "dij_inv V (relax c s) \<and> no_worse V s (relax c s)"
proof -
  have "set (links (grid s) c) \<subseteq> V" using inv c by (simp add: dij_inv_def)
  from fold_relax_neighbor_step [OF fin c inv this] show ?thesis unfolding relax_def .
qed

text \<open>The rule for the loop of \<open>solve\<close>: it ends, and keeps what every round keeps.\<close>

lemma solve_loop_rule:
  assumes fin: "finite V"
    and step: "\<And>s. I s \<Longrightarrow> dij_inv V s \<Longrightarrow> queue s \<noteq> [] \<Longrightarrow>
                 I (relax (snd (hd (queue s))) (s\<lparr>queue := tl (queue s)\<rparr>))"
  shows "I s \<Longrightarrow> dij_inv V s \<Longrightarrow>
           \<exists>s'. solve_loop s = Some s' \<and> I s' \<and> dij_inv V s' \<and> queue s' = []"
proof (induction s rule: wf_induct_rule
    [OF wf_inv_image [OF wf_lex_prod [OF wf_less_than wf_less_than],
          of "\<lambda>s. (sum_dist V s, length (queue s))"]])
  case (1 s)
  show ?case
  proof (cases "queue s = []")
    case True
    have "solve_loop s = Some s" by (subst solve_loop.simps) (simp add: True)
    with 1 True show ?thesis by simp
  next
    case False
    let ?c = "snd (hd (queue s))"
    let ?s1 = "s\<lparr>queue := tl (queue s)\<rparr>"
    have c: "?c \<in> V" using "1.prems"(2) False by (cases "queue s") (auto simp: dij_inv_def)
    have inv1: "dij_inv V ?s1"
      using "1.prems"(2) False by (cases "queue s") (auto simp: dij_inv_def)
    have sd1: "sum_dist V ?s1 = sum_dist V s" by (simp add: sum_dist_def)
    note rs = relax_step [OF fin c inv1]
    from rs have inv2: "dij_inv V (relax ?c ?s1)" by (rule conjunct1)
    from rs have dec: "no_worse V ?s1 (relax ?c ?s1)" by (rule conjunct2)
    have less: "(relax ?c ?s1, s) \<in> inv_image (less_than <*lex*> less_than)
                  (\<lambda>s. (sum_dist V s, length (queue s)))"
    proof -
      from dec [unfolded no_worse_def] show ?thesis
      proof
        assume "sum_dist V (relax ?c ?s1) < sum_dist V ?s1"
        then show ?thesis by (simp add: sd1)
      next
        assume a: "distance (grid (relax ?c ?s1)) = distance (grid ?s1)
               \<and> queue (relax ?c ?s1) = queue ?s1"
        from a have "sum_dist V (relax ?c ?s1) = sum_dist V ?s1" unfolding sum_dist_def by simp
        then have e1: "sum_dist V (relax ?c ?s1) = sum_dist V s" by (simp add: sd1)
        from a have "queue (relax ?c ?s1) = tl (queue s)" by simp
        then have "length (queue (relax ?c ?s1)) < length (queue s)"
          using False by simp
        with e1 show ?thesis by simp
      qed
    qed
    from "1.IH" [OF less step [OF "1.prems" False] inv2]
    obtain s' where "solve_loop (relax ?c ?s1) = Some s'" "I s'" "dij_inv V s'" "queue s' = []"
      by blast
    moreover have "solve_loop s = solve_loop (relax ?c ?s1)"
      by (subst solve_loop.simps) (simp add: False)
    ultimately show ?thesis by simp
  qed
qed


lemma min_key_in: "min_key f m xs \<in> insert m (set xs)"
  by (induction xs arbitrary: m) auto

lemma min_key_hd_tl: "xs \<noteq> [] \<Longrightarrow> min_key f (hd xs) (tl xs) \<in> set xs"
  using min_key_in [of f "hd xs" "tl xs"] by (cases xs) auto

lemma recover_path_loop_returns:
  assumes nonneg: "\<forall>c \<in> V. 0 \<le> distance g c" and closed: "\<forall>c \<in> V. set (links g c) \<subseteq> V"
  shows "current \<in> V \<Longrightarrow> \<exists>p. recover_path_loop g current path = Some p"
proof (induction "nat (distance g current)" arbitrary: current path rule: less_induct)
  case less
  let ?ns = "filter (\<lambda>n. distance g n < distance g current) (links g current)"
  show ?case
  proof (cases "(row current = 0 \<and> col current = 0) \<or> ?ns = []")
    case True
    then have "recover_path_loop g current path = Some (path @ [current])"
      by (subst recover_path_loop.simps) (auto simp: Let_def)
    then show ?thesis by simp
  next
    case False
    let ?m = "min_key (distance g) (hd ?ns) (tl ?ns)"
    from False have ne: "?ns \<noteq> []" by simp
    from min_key_hd_tl [OF ne] have m: "?m \<in> set ?ns" .
    then have mV: "?m \<in> V" and ml: "distance g ?m < distance g current"
      using closed less.prems by auto
    from nonneg mV have "0 \<le> distance g ?m" by simp
    with ml have "nat (distance g ?m) < nat (distance g current)" by simp
    from less.hyps [OF this mV]
    obtain p where "recover_path_loop g ?m (path @ [current]) = Some p" by blast
    moreover have "recover_path_loop g current path = recover_path_loop g ?m (path @ [current])"
      using False by (subst recover_path_loop.simps) (auto simp: Let_def)
    ultimately show ?thesis by simp
  qed
qed

text \<open>
  \<open>solve\<close> on a grid of the constructor's shape with at least one row and one column, whose
  links stay inside the grid: it returns; the loop keeps whatever each round keeps.
\<close>

lemma solve_rule:
  assumes sh: "shape nr nc (grid s)" and nr: "1 \<le> nr" and nc: "1 \<le> nc"
    and closed: "\<forall>c \<in> set (all_cells (grid s)). set (links (grid s) c) \<subseteq> set (all_cells (grid s))"
    and q: "queue s = []"
    and init: "\<And>s1. initialize s = Inr s1 \<Longrightarrow> I (add_to_queue (0, 0) 0 s1)"
    and step: "\<And>s. I s \<Longrightarrow> dij_inv {c. in_grid nr nc c} s \<Longrightarrow> queue s \<noteq> [] \<Longrightarrow>
                 I (relax (snd (hd (queue s))) (s\<lparr>queue := tl (queue s)\<rparr>))"
  shows "\<exists>p s'. solve s = Some (Inr (p, s')) \<and> I s' \<and> same_maze (grid s) (grid s')
           \<and> dij_inv {c. in_grid nr nc c} s' \<and> queue s' = []
           \<and> (distance (grid s') (nr - 1, nc - 1) = 10000 \<longrightarrow> p = [])
           \<and> (distance (grid s') (nr - 1, nc - 1) \<noteq> 10000 \<longrightarrow>
                 recover_path_loop (grid s') (nr - 1, nc - 1) [] = Some (rev p))"
proof -
  let ?V = "{c. in_grid nr nc c}"
  let ?d = "\<lambda>c. if c = (0, 0) then 0 else if in_grid nr nc c then 10000 else distance (grid s) c"
  let ?s1 = "s\<lparr>grid := (grid s)\<lparr>distance := ?d\<rparr>\<rparr>"
  let ?s0 = "add_to_queue (0, 0) 0 ?s1"
  have V: "set (all_cells (grid s)) = ?V" by (simp add: shape_all_cells [OF sh])
  have fin: "finite ?V" using V by (metis List.finite_set)
  have i1: "initialize s = Inr ?s1" by (rule initialize_shape [OF sh nr nc])
  have sm1: "same_maze (grid s) (grid ?s0)"
    by (simp add: same_maze_def add_to_queue_def)
  have origin: "in_grid nr nc (0, 0)" using nr nc by (simp add: in_grid_def row_def col_def)
  have g0: "get_cell (grid s) 0 0 = Inr (Some (0, 0))"
    using origin by (simp add: get_cell_shape [OF sh] cell_at_def)
  have inv0: "dij_inv ?V ?s0"
    using closed origin unfolding V by (auto simp: dij_inv_def add_to_queue_def q)
  have "\<exists>s'. solve_loop ?s0 = Some s' \<and> (I s' \<and> same_maze (grid s) (grid s'))
           \<and> dij_inv ?V s' \<and> queue s' = []"
  proof (rule solve_loop_rule [OF fin])
    show "I ?s0 \<and> same_maze (grid s) (grid ?s0)" using init [OF i1] sm1 by simp
    show "dij_inv ?V ?s0" by (rule inv0)
    show "I (relax (snd (hd (queue t))) (t\<lparr>queue := tl (queue t)\<rparr>))
          \<and> same_maze (grid s) (grid (relax (snd (hd (queue t))) (t\<lparr>queue := tl (queue t)\<rparr>)))"
      if "I t \<and> same_maze (grid s) (grid t)" "dij_inv ?V t" "queue t \<noteq> []" for t
    proof
      show "I (relax (snd (hd (queue t))) (t\<lparr>queue := tl (queue t)\<rparr>))"
        using that by (intro step) simp_all
      have "same_maze (grid (t\<lparr>queue := tl (queue t)\<rparr>))
              (grid (relax (snd (hd (queue t))) (t\<lparr>queue := tl (queue t)\<rparr>)))"
        by (rule relax_same_maze)
      with that(1) show "same_maze (grid s)
              (grid (relax (snd (hd (queue t))) (t\<lparr>queue := tl (queue t)\<rparr>)))"
        by (auto intro: same_maze_trans)
    qed
  qed
  then obtain s' where s': "solve_loop ?s0 = Some s'" "I s'" "same_maze (grid s) (grid s')"
    "dij_inv ?V s'" "queue s' = []" by blast
  have sh': "shape nr nc (grid s')" using same_maze_shape [OF s'(3) sh] .
  have nums: "num_rows (grid s') = nr" "num_cols (grid s') = nc"
    using sh' by (simp_all add: shape_def)
  have target: "in_grid nr nc (nr - 1, nc - 1)"
    using nr nc by (simp add: in_grid_def row_def col_def)
  have gt: "get_cell (grid s') (nr - 1) (nc - 1) = Inr (Some (nr - 1, nc - 1))"
    using target by (simp add: get_cell_shape [OF sh'] cell_at_def)
  show ?thesis
  proof (cases "distance (grid s') (nr - 1, nc - 1) = 10000")
    case True
    have "solve s = Some (Inr ([], s'))"
      by (simp add: solve_def i1 g0 s'(1) nums gt True)
    with s' True show ?thesis by simp
  next
    case False
    have "\<exists>p. recover_path_loop (grid s') (nr - 1, nc - 1) [] = Some p"
    proof (rule recover_path_loop_returns [where V = ?V])
      show "\<forall>c \<in> ?V. 0 \<le> distance (grid s') c" using s'(4) by (simp add: dij_inv_def)
      show "\<forall>c \<in> ?V. set (links (grid s') c) \<subseteq> ?V" using s'(4) by (simp add: dij_inv_def)
      show "(nr - 1, nc - 1) \<in> ?V" using target by simp
    qed
    then obtain p where p: "recover_path_loop (grid s') (nr - 1, nc - 1) [] = Some p" by blast
    have "solve s = Some (Inr (rev p, s'))"
      by (simp add: solve_def i1 g0 s'(1) nums gt False recover_path_def p)
    with s' False p show ?thesis by simp
  qed
qed


lemma shape_two_cells: "shape 1 2 two_cells"
  by (simp add: two_cells_def)

lemma solve_loop_Cons: "queue s = x # xs \<Longrightarrow> solve_loop s = solve_loop (relax (snd x) (s\<lparr>queue := xs\<rparr>))"
  by (subst solve_loop.simps) simp

lemma solve_loop_Nil: "queue s = [] \<Longrightarrow> solve_loop s = Some s"
  by (subst solve_loop.simps) simp

lemma solve_two_cells:
  "solve (DjikstraSolver two_cells) =
     Some (Inr ([(0, 0), (0, 1)],
       \<lparr>grid = two_cells\<lparr>distance := (\<lambda>c. if c = (0, 0) then 0 else if in_grid 1 2 c then 10000
                                           else distance two_cells c)((0, 1) := 1),
                         previous := (previous two_cells)((0, 1) := Some (0, 0))\<rparr>,
        queue = [],
        weight_calls = [((0, 0), (0, 1), 1), ((0, 1), (0, 0), 1)]\<rparr>))"
proof -
  let ?d0 = "\<lambda>c. if c = (0, 0) then 0 else if in_grid 1 2 c then 10000 else distance two_cells c"
  let ?s1 = "\<lparr>grid = two_cells\<lparr>distance := ?d0\<rparr>, queue = [], weight_calls = []\<rparr>"
  let ?s2 = "\<lparr>grid = two_cells\<lparr>distance := ?d0\<rparr>, queue = [(0, (0, 0))], weight_calls = []\<rparr>"
  let ?g3 = "two_cells\<lparr>distance := ?d0((0, 1) := 1),
                         previous := (previous two_cells)((0, 1) := Some (0, 0))\<rparr>"
  let ?s3 = "\<lparr>grid = ?g3, queue = [(1, (0, 1))], weight_calls = [((0, 0), (0, 1), 1)]\<rparr>"
  let ?s4 = "\<lparr>grid = ?g3, queue = [], weight_calls = [((0, 0), (0, 1), 1), ((0, 1), (0, 0), 1)]\<rparr>"
  have lk: "links two_cells (0, 0) = [(0, 1)]" "links two_cells (0, 1) = [(0, 0)]"
    by (simp_all add: two_cells_def)
  have i: "initialize (DjikstraSolver two_cells) = Inr ?s1"
    using initialize_shape [of 1 2 "DjikstraSolver two_cells"]
    by (simp add: DjikstraSolver_def shape_two_cells cong: if_cong)
  have g: "get_cell two_cells 0 0 = Inr (Some (0, 0))" "get_cell two_cells 0 1 = Inr (Some (0, 1))"
    by (simp_all add: get_cell_shape [OF shape_two_cells] cell_at_def in_grid_def row_def col_def)
  have a: "add_to_queue (0, 0) 0 ?s1 = ?s2"
    by (simp add: add_to_queue_def)
  have r1: "relax (0, 0) (?s2\<lparr>queue := []\<rparr>) = ?s3"
    by (simp add: relax_def lk relax_neighbor_def weight_def add_to_queue_def in_grid_def
        row_def col_def)
  have r2: "relax (0, 1) (?s3\<lparr>queue := []\<rparr>) = ?s4"
    by (simp add: relax_def lk relax_neighbor_def weight_def add_to_queue_def in_grid_def
        row_def col_def)
  have "solve_loop ?s2 = solve_loop (relax (snd (0::int, (0::int, 0::int))) (?s2\<lparr>queue := []\<rparr>))"
    by (rule solve_loop_Cons) simp
  also have "\<dots> = solve_loop ?s3" by (simp only: r1 snd_conv)
  also have "\<dots> = solve_loop (relax (snd (1::int, (0::int, 1::int))) (?s3\<lparr>queue := []\<rparr>))"
    by (rule solve_loop_Cons) simp
  also have "\<dots> = solve_loop ?s4" by (simp only: r2 snd_conv)
  also have "\<dots> = Some ?s4" by (rule solve_loop_Nil) simp
  finally have l: "solve_loop ?s2 = Some ?s4" .
  have nums: "num_rows two_cells = 1" "num_cols two_cells = 2"
    using shape_two_cells by (simp_all add: shape_def)
  have rp: "recover_path_loop ?g3 (0, 1) [] = Some [(0, 1), (0, 0)]"
    by (subst recover_path_loop.simps, simp add: Let_def row_def col_def lk,
        subst recover_path_loop.simps, simp add: row_def col_def)
  show ?thesis
    by (simp add: solve_def i g a l nums recover_path_def rp)
qed


lemma initialize_DjikstraSolver:
  assumes "shape nr nc g" "1 \<le> nr" "1 \<le> nc"
  shows "initialize (DjikstraSolver g) =
           Inr \<lparr>grid = g\<lparr>distance := (\<lambda>c. if c = (0, 0) then 0 else if in_grid nr nc c then 10000
                                           else distance g c)\<rparr>,
                queue = [], weight_calls = []\<rparr>"
  using initialize_shape [of nr nc "DjikstraSolver g"] assms
  by (simp add: DjikstraSolver_def cong: if_cong)

lemma after_first_solve_eq:
  "after_first_solve =
       \<lparr>grid = two_cells\<lparr>distance := (\<lambda>c. if c = (0, 0) then 0 else if in_grid 1 2 c then 10000
                                           else distance two_cells c)((0, 1) := 1),
                         previous := (previous two_cells)((0, 1) := Some (0, 0))\<rparr>,
        queue = [],
        weight_calls = [((0, 0), (0, 1), 1), ((0, 1), (0, 0), 1)]\<rparr>"
  by (simp add: after_first_solve_def solve_two_cells)

text \<open>
  C6 (as the claim states it, refuted): \<open>initialize\<close> does not empty the predecessors. After
  a first \<open>solve\<close> on the grid of two linked cells, the initialization of the next
  \<open>solve\<close> leaves the predecessor of the cell (0, 1) at the cell (0, 0).
\<close>

theorem initialize_keeps_previous:
  "solve (DjikstraSolver two_cells) = Some (Inr ([(0, 0), (0, 1)], after_first_solve))
   \<and> \<not> isl (initialize after_first_solve)
   \<and> previous (grid (projr (initialize after_first_solve))) (0, 1) = Some (0, 0)"
proof -
  have sh: "shape 1 2 (grid after_first_solve)"
    by (simp add: after_first_solve_eq shape_two_cells)
  have "previous (grid after_first_solve) (0, 1) = Some (0, 0)"
    by (simp add: after_first_solve_eq)
  then show ?thesis
    using solve_two_cells by (simp add: initialize_shape [OF sh] after_first_solve_eq [symmetric])
qed

text \<open>
  C6 (amended): on a grid with at least one row and one column, \<open>initialize\<close> sets the
  distance of the start cell (0, 0) to 0 and the distance of every other cell of the grid
  to 10000; it leaves the predecessor of every cell as it was.
\<close>

theorem initialize_sets_distances:
  assumes "shape nr nc (grid s)" "1 \<le> nr" "1 \<le> nc"
  shows "\<exists>s'. initialize s = Inr s'
           \<and> get_cell (grid s') 0 0 = Inr (Some (0, 0)) \<and> distance (grid s') (0, 0) = 0
           \<and> (\<forall>c \<in> set (all_cells (grid s')). c \<noteq> (0, 0) \<longrightarrow> distance (grid s') c = 10000)
           \<and> previous (grid s') = previous (grid s)"
proof -
  have "get_cell (grid s) 0 0 = Inr (Some (0, 0))"
    using assms(2,3) by (simp add: get_cell_shape [OF assms(1)] cell_at_def in_grid_def row_def col_def)
  then show ?thesis
    by (simp add: initialize_shape [OF assms] shape_all_cells [OF assms(1)])
qed

theorem initialize_sets_distances_witness:
  "shape 1 2 (grid (DjikstraSolver two_cells))
   \<and> (\<exists>s'. initialize (DjikstraSolver two_cells) = Inr s'
           \<and> distance (grid s') (0, 0) = 0 \<and> distance (grid s') (0, 1) = 10000
           \<and> previous (grid s') = previous two_cells)"
proof -
  have sh: "shape 1 2 (grid (DjikstraSolver two_cells))"
    by (simp add: DjikstraSolver_def shape_two_cells)
  from initialize_sets_distances [OF sh]
  obtain s' where s': "initialize (DjikstraSolver two_cells) = Inr s'"
    "distance (grid s') (0, 0) = 0"
    "\<forall>c \<in> set (all_cells (grid s')). c \<noteq> (0, 0) \<longrightarrow> distance (grid s') c = 10000"
    "previous (grid s') = previous (grid (DjikstraSolver two_cells))"
    by auto
  have "same_maze two_cells (grid s')"
    using s'(1) by (auto simp: initialize_DjikstraSolver [OF shape_two_cells] same_maze_def)
  then have "(0, 1) \<in> set (all_cells (grid s'))"
    by (simp add: same_maze_all_cells all_cells_two_cells)
  with s'(3) have "distance (grid s') (0, 1) = 10000" by auto
  with s' sh show ?thesis by (auto simp: DjikstraSolver_def)
qed

text \<open>
  C7: on a grid that the constructor has just built (no link), with at least two cells,
  \<open>solve_maze\<close> between two different cells returns \<open>None\<close>, and \<open>solve\<close>, whose start
  (0, 0) and end (the last cell) are different, returns the empty list; neither raises.
\<close>

theorem solvers_not_found:
  assumes "Grid nr nc = Inr g" "1 \<le> nr" "1 \<le> nc" "(0, 0) \<noteq> (nr - 1, nc - 1)"
  shows "(\<forall>a b. a \<noteq> b \<longrightarrow> solve_maze g a b = Some None)
         \<and> (\<exists>s'. solve (DjikstraSolver g) = Some (Inr ([], s')))"
proof
  from assms(1) have g: "g = fresh_grid nr nc" by (simp add: Grid_fresh)
  have nl: "links g c = []" for c by (simp add: g fresh_grid_def)
  show "\<forall>a b. a \<noteq> b \<longrightarrow> solve_maze g a b = Some None"
  proof (intro allI impI)
    fix a b :: cell
    assume "a \<noteq> b"
    then show "solve_maze g a b = Some None"
      unfolding solve_maze_def
      by (subst solve_maze_loop.simps, simp add: nl, subst solve_maze_loop.simps, simp)
  qed
  let ?s = "DjikstraSolver g"
  let ?I = "\<lambda>s. links (grid s) = (\<lambda>_. []) \<and> distance (grid s) (nr - 1, nc - 1) = 10000"
  have sh: "shape nr nc (grid ?s)" by (simp add: DjikstraSolver_def g)
  have target: "in_grid nr nc (nr - 1, nc - 1)"
    using assms(2,3) by (simp add: in_grid_def row_def col_def)
  have "\<exists>p s'. solve ?s = Some (Inr (p, s')) \<and> ?I s' \<and> same_maze (grid ?s) (grid s')
           \<and> dij_inv {c. in_grid nr nc c} s' \<and> queue s' = []
           \<and> (distance (grid s') (nr - 1, nc - 1) = 10000 \<longrightarrow> p = [])
           \<and> (distance (grid s') (nr - 1, nc - 1) \<noteq> 10000 \<longrightarrow>
                 recover_path_loop (grid s') (nr - 1, nc - 1) [] = Some (rev p))"
  proof (rule solve_rule [OF sh assms(2,3)])
    show "\<forall>c \<in> set (all_cells (grid ?s)). set (links (grid ?s) c) \<subseteq> set (all_cells (grid ?s))"
      by (simp add: DjikstraSolver_def nl)
    show "queue ?s = []" by (simp add: DjikstraSolver_def)
    show "?I (add_to_queue (0, 0) 0 s1)" if "initialize ?s = Inr s1" for s1
      using that assms(4) target shape_fresh_grid [of nr nc]
      by (auto simp: initialize_DjikstraSolver [OF _ assms(2,3)] add_to_queue_def g
          fresh_grid_def)
    show "?I (relax (snd (hd (queue s))) (s\<lparr>queue := tl (queue s)\<rparr>))"
      if "?I s" for s
      using that by (simp add: relax_def)
  qed
  then show "\<exists>s'. solve (DjikstraSolver g) = Some (Inr ([], s'))" by auto
qed

theorem solvers_not_found_witness:
  "Grid 2 2 = Inr (fresh_grid 2 2)
   \<and> solve_maze (fresh_grid 2 2) (0, 0) (1, 1) = Some None
   \<and> (\<exists>s'. solve (DjikstraSolver (fresh_grid 2 2)) = Some (Inr ([], s')))"
  using solvers_not_found [OF Grid_fresh, of 2 2] by (simp add: Grid_fresh)

lemma relax_neighbor_calls:
  assumes "same_maze g (grid s)" "calls_ok g (weight_calls s)" "n \<in> set (links g c)"
  shows "calls_ok g (weight_calls (relax_neighbor c n s))"
proof -
  have "weight s c n = 1" using assms(1,3) by (simp add: weight_def same_maze_def)
  moreover have "weight_calls (relax_neighbor c n s) = weight_calls s @ [(c, n, weight s c n)]"
    by (simp add: relax_neighbor_def Let_def add_to_queue_def)
  ultimately show ?thesis
    using assms(2,3) by (simp add: calls_ok_def is_linked_def)
qed

lemma fold_relax_neighbor_calls:
  "same_maze g (grid s) \<Longrightarrow> calls_ok g (weight_calls s) \<Longrightarrow> set ns \<subseteq> set (links g c) \<Longrightarrow>
     calls_ok g (weight_calls (fold (relax_neighbor c) ns s))"
proof (induction ns arbitrary: s)
  case Nil
  then show ?case by simp
next
  case (Cons n ns)
  have "same_maze g (grid (relax_neighbor c n s))"
    using Cons.prems(1) relax_neighbor_same_maze [of s c n] by (rule same_maze_trans)
  moreover have "calls_ok g (weight_calls (relax_neighbor c n s))"
    using Cons.prems by (intro relax_neighbor_calls) simp_all
  ultimately show ?case using Cons.IH Cons.prems(3) by simp
qed

text \<open>
  C8: on a grid with at least one row and one column whose links stay inside the grid,
  \<open>solve\<close> returns, and every call of \<open>weight\<close> that it has made was made on a cell and
  one of its links and returned 1: the branch of \<open>weight\<close> that returns 10000 is not taken.
\<close>

theorem weight_calls_on_links:
  assumes "shape nr nc g" "1 \<le> nr" "1 \<le> nc"
    and "\<forall>c \<in> set (all_cells g). set (links g c) \<subseteq> set (all_cells g)"
  shows "\<exists>p s'. solve (DjikstraSolver g) = Some (Inr (p, s'))
           \<and> (\<forall>(c1, c2, w) \<in> set (weight_calls s'). is_linked g c1 c2 \<and> w = 1)"
proof -
  let ?s = "DjikstraSolver g"
  let ?I = "\<lambda>s. same_maze g (grid s) \<and> calls_ok g (weight_calls s)"
  have sh: "shape nr nc (grid ?s)" using assms(1) by (simp add: DjikstraSolver_def)
  have "\<exists>p s'. solve ?s = Some (Inr (p, s')) \<and> ?I s' \<and> same_maze (grid ?s) (grid s')
           \<and> dij_inv {c. in_grid nr nc c} s' \<and> queue s' = []
           \<and> (distance (grid s') (nr - 1, nc - 1) = 10000 \<longrightarrow> p = [])
           \<and> (distance (grid s') (nr - 1, nc - 1) \<noteq> 10000 \<longrightarrow>
                 recover_path_loop (grid s') (nr - 1, nc - 1) [] = Some (rev p))"
  proof (rule solve_rule [OF sh assms(2,3)])
    show "\<forall>c \<in> set (all_cells (grid ?s)). set (links (grid ?s) c) \<subseteq> set (all_cells (grid ?s))"
      using assms(4) by (simp add: DjikstraSolver_def)
    show "queue ?s = []" by (simp add: DjikstraSolver_def)
    show "?I (add_to_queue (0, 0) 0 s1)" if "initialize ?s = Inr s1" for s1
      using that
      by (auto simp: initialize_DjikstraSolver [OF assms(1,2,3)] add_to_queue_def
          same_maze_def calls_ok_def)
    show "?I (relax (snd (hd (queue s))) (s\<lparr>queue := tl (queue s)\<rparr>))" if "?I s" for s
    proof
      let ?s1 = "s\<lparr>queue := tl (queue s)\<rparr>"
      let ?c = "snd (hd (queue s))"
      from that have sm: "same_maze g (grid ?s1)" and ok: "calls_ok g (weight_calls ?s1)"
        by simp_all
      show "same_maze g (grid (relax ?c ?s1))"
        using sm relax_same_maze [of ?s1 ?c] by (rule same_maze_trans)
      have "links (grid ?s1) ?c = links g ?c" using sm by (simp add: same_maze_def)
      then show "calls_ok g (weight_calls (relax ?c ?s1))"
        unfolding relax_def using sm ok by (intro fold_relax_neighbor_calls) simp_all
    qed
  qed
  then obtain p s' where "solve ?s = Some (Inr (p, s'))" "calls_ok g (weight_calls s')"
    by blast
  then show ?thesis
    by (auto simp: calls_ok_def list_all_iff)
qed

theorem weight_calls_on_links_witness:
  "shape 1 2 two_cells
   \<and> (\<Union>c \<in> set (all_cells two_cells). set (links two_cells c)) \<subseteq> set (all_cells two_cells)
   \<and> (\<exists>p s'. solve (DjikstraSolver two_cells) = Some (Inr (p, s'))
         \<and> weight_calls s' = [((0, 0), (0, 1), 1), ((0, 1), (0, 0), 1)]
         \<and> is_linked two_cells (0, 0) (0, 1) \<and> is_linked two_cells (0, 1) (0, 0))"
proof -
  have b: "\<forall>c \<in> set (all_cells two_cells). set (links two_cells c) \<subseteq> set (all_cells two_cells)"
    unfolding all_cells_two_cells by (simp add: two_cells_def)
  from weight_calls_on_links [OF shape_two_cells _ _ b]
  obtain p s' where s': "solve (DjikstraSolver two_cells) = Some (Inr (p, s'))"
    "\<forall>(c1, c2, w) \<in> set (weight_calls s'). is_linked two_cells c1 c2 \<and> w = 1"
    by auto
  from s'(1) have w: "weight_calls s' = [((0, 0), (0, 1), 1), ((0, 1), (0, 0), 1)]"
    by (auto simp: solve_two_cells)
  with s'(2) have "is_linked two_cells (0, 0) (0, 1) \<and> is_linked two_cells (0, 1) (0, 0)"
    by simp
  moreover from b have "(\<Union>c \<in> set (all_cells two_cells). set (links two_cells c)) \<subseteq> set (all_cells two_cells)"
    by blast
  ultimately show ?thesis using s'(1) w shape_two_cells by blast
qed

section \<open>Graphs: joining components\<close>

lemma rtrancl_join:
  "(x, y) \<in> (E \<union> {(a, b), (b, a)})\<^sup>* \<longleftrightarrow>
     (x, y) \<in> E\<^sup>* \<or> ((x, a) \<in> E\<^sup>* \<and> (b, y) \<in> E\<^sup>*) \<or> ((x, b) \<in> E\<^sup>* \<and> (a, y) \<in> E\<^sup>*)"
  (is "?L \<longleftrightarrow> ?R")
proof
  assume ?L
  then show ?R
  proof (induction rule: rtrancl_induct)
    case base
    then show ?case by simp
  next
    case (step y z)
    from step.hyps(2) consider "(y, z) \<in> E" | "y = a" "z = b" | "y = b" "z = a" by auto
    then show ?case
    proof cases
      case 1
      with step.IH show ?thesis by (meson rtrancl.rtrancl_into_rtrancl)
    next
      case 2
      with step.IH show ?thesis by (meson rtrancl.rtrancl_refl rtrancl_trans)
    next
      case 3
      with step.IH show ?thesis by (meson rtrancl.rtrancl_refl rtrancl_trans)
    qed
  qed
next
  have mono: "E\<^sup>* \<subseteq> (E \<union> {(a, b), (b, a)})\<^sup>*" by (rule rtrancl_mono) blast
  have ab: "(a, b) \<in> (E \<union> {(a, b), (b, a)})\<^sup>*" "(b, a) \<in> (E \<union> {(a, b), (b, a)})\<^sup>*"
    by auto
  assume ?R
  then show ?L
  proof (elim disjE conjE)
    assume "(x, y) \<in> E\<^sup>*"
    with mono show ?L by blast
  next
    assume "(x, a) \<in> E\<^sup>*" "(b, y) \<in> E\<^sup>*"
    with mono have "(x, a) \<in> (E \<union> {(a, b), (b, a)})\<^sup>*" "(b, y) \<in> (E \<union> {(a, b), (b, a)})\<^sup>*"
      by blast+
    with ab(1) show ?L by (meson rtrancl_trans)
  next
    assume "(x, b) \<in> E\<^sup>*" "(a, y) \<in> E\<^sup>*"
    with mono have "(x, b) \<in> (E \<union> {(a, b), (b, a)})\<^sup>*" "(a, y) \<in> (E \<union> {(a, b), (b, a)})\<^sup>*"
      by blast+
    with ab(2) show ?L by (meson rtrancl_trans)
  qed
qed

lemma rtrancl_sym: "sym E \<Longrightarrow> (x, y) \<in> E\<^sup>* \<Longrightarrow> (y, x) \<in> E\<^sup>*"
  using sym_rtrancl [of E] by (simp add: sym_def)

lemma grown_sym: "grown V adj E \<Longrightarrow> sym E"
  by (induction rule: grown.induct) (auto simp: sym_def)

lemma grown_adj: "grown V adj E \<Longrightarrow> (x, y) \<in> E \<Longrightarrow> x \<in> V \<and> y \<in> V \<and> adj x y"
  by (induction rule: grown.induct) auto

lemma grown_bridged: "grown V adj E \<Longrightarrow> bridged E"
proof (induction rule: grown.induct)
  case grown_empty
  then show ?case by (simp add: bridged_def)
next
  case (grown_join E a b)
  let ?E' = "E \<union> {(a, b), (b, a)}"
  have symE: "sym E" using grown_join.hyps(1) by (rule grown_sym)
  have nab: "(a, b) \<notin> E" "(b, a) \<notin> E"
    using grown_join.hyps(6) symE by (auto simp: sym_def)
  show ?case
    unfolding bridged_def
  proof (intro allI impI)
    fix x y
    assume xy: "(x, y) \<in> ?E'"
    show "(x, y) \<notin> (?E' - {(x, y), (y, x)})\<^sup>*"
    proof (cases "(x, y) \<in> E")
      case False
      with xy have "?E' - {(x, y), (y, x)} \<subseteq> E" by auto
      then have "(?E' - {(x, y), (y, x)})\<^sup>* \<subseteq> E\<^sup>*" by (rule rtrancl_mono)
      moreover from False xy grown_join.hyps(6) symE have "(x, y) \<notin> E\<^sup>*"
        by (auto dest: rtrancl_sym)
      ultimately show ?thesis by blast
    next
      case True
      let ?F = "E - {(x, y), (y, x)}"
      have eq: "?E' - {(x, y), (y, x)} = ?F \<union> {(a, b), (b, a)}"
        using True nab symE by (auto simp: sym_def)
      have symF: "sym ?F" using symE by (auto simp: sym_def)
      have FE: "?F\<^sup>* \<subseteq> E\<^sup>*" by (rule rtrancl_mono) auto
      have nF: "(x, y) \<notin> ?F\<^sup>*" using grown_join.IH True by (simp add: bridged_def)
      have yx: "(y, x) \<in> E" using True symE by (simp add: sym_def)
      show ?thesis
      proof
        assume "(x, y) \<in> (?E' - {(x, y), (y, x)})\<^sup>*"
        then have "(x, y) \<in> ?F\<^sup>* \<or> ((x, a) \<in> ?F\<^sup>* \<and> (b, y) \<in> ?F\<^sup>*)
                    \<or> ((x, b) \<in> ?F\<^sup>* \<and> (a, y) \<in> ?F\<^sup>*)"
          unfolding eq rtrancl_join .
        then show False
        proof (elim disjE conjE)
          assume "(x, y) \<in> ?F\<^sup>*"
          with nF show False by simp
        next
          assume "(x, a) \<in> ?F\<^sup>*" "(b, y) \<in> ?F\<^sup>*"
          then have "(a, x) \<in> E\<^sup>*" "(y, b) \<in> E\<^sup>*"
            using rtrancl_sym [OF symF] FE by blast+
          with True have "(a, b) \<in> E\<^sup>*"
            by (meson rtrancl.rtrancl_into_rtrancl rtrancl_trans)
          with grown_join.hyps(6) show False by simp
        next
          assume "(x, b) \<in> ?F\<^sup>*" "(a, y) \<in> ?F\<^sup>*"
          then have "(b, x) \<in> E\<^sup>*" "(a, y) \<in> E\<^sup>*"
            using rtrancl_sym [OF symF] FE by blast+
          with yx have "(a, b) \<in> E\<^sup>*"
            by (meson rtrancl.rtrancl_into_rtrancl rtrancl_trans rtrancl_sym [OF symE])
          with grown_join.hyps(6) show False by simp
        qed
      qed
    qed
  qed
qed


lemma walk_snoc: "walk R (p @ [z]) = (walk R p \<and> (p = [] \<or> (last p, z) \<in> R))"
  by (induction R p rule: walk.induct) auto

lemma walk_append_left: "walk R (p @ q) \<Longrightarrow> walk R p"
  by (induction R p rule: walk.induct) auto

lemma walk_tl: "walk R (x # p) \<Longrightarrow> walk R p"
  by (cases p) auto

lemma walk_rtrancl: "walk R p \<Longrightarrow> p \<noteq> [] \<Longrightarrow> (hd p, last p) \<in> R\<^sup>*"
proof (induction R p rule: walk.induct)
  case (3 R x y zs)
  then have "(x, y) \<in> R" "(y, last (y # zs)) \<in> R\<^sup>*" by auto
  then show ?case by (simp add: converse_rtrancl_into_rtrancl)
qed auto

lemma walk_avoiding:
  "walk E p \<Longrightarrow> x \<notin> set p \<Longrightarrow> walk (E - {(x, y), (y, x)}) p"
  by (induction E p rule: walk.induct) auto

lemma walk_mono: "walk E p \<Longrightarrow> E \<subseteq> E' \<Longrightarrow> walk E' p"
  by (induction E p rule: walk.induct) auto

lemma walk_rev: "sym E \<Longrightarrow> walk E p \<Longrightarrow> walk E (rev p)"
proof (induction E p rule: walk.induct)
  case (3 R x y zs)
  then have "walk R (rev (y # zs))" "(y, x) \<in> R" by (auto simp: sym_def)
  then show ?case
    using walk_snoc [of R "rev (y # zs)" x] by simp
qed auto

lemma rtrancl_simple_walk:
  "(a, b) \<in> R\<^sup>* \<Longrightarrow> \<exists>p. p \<noteq> [] \<and> hd p = a \<and> last p = b \<and> distinct p \<and> walk R p"
proof (induction rule: rtrancl_induct)
  case base
  have "[a] \<noteq> [] \<and> hd [a] = a \<and> last [a] = a \<and> distinct [a] \<and> walk R [a]" by simp
  then show ?case by blast
next
  case (step y z)
  then obtain p where p: "p \<noteq> []" "hd p = a" "last p = y" "distinct p" "walk R p" by blast
  show ?case
  proof (cases "z \<in> set p")
    case True
    then obtain p1 p2 where sp: "p = p1 @ z # p2" by (meson split_list)
    let ?q = "p1 @ [z]"
    have "p = ?q @ p2" by (simp add: sp)
    then have "walk R ?q" using p(5) walk_append_left by metis
    moreover have "hd ?q = a" using p(2) sp by (cases p1) auto
    moreover have "distinct ?q" using p(4) sp by auto
    ultimately have "?q \<noteq> [] \<and> hd ?q = a \<and> last ?q = z \<and> distinct ?q \<and> walk R ?q" by simp
    then show ?thesis by blast
  next
    case False
    let ?q = "p @ [z]"
    have "walk R ?q" using p step.hyps(2) by (simp add: walk_snoc)
    moreover have "hd ?q = a" using p by (cases p) auto
    moreover have "distinct ?q" using p False by simp
    ultimately have "?q \<noteq> [] \<and> hd ?q = a \<and> last ?q = z \<and> distinct ?q \<and> walk R ?q" by simp
    then show ?thesis by blast
  qed
qed

lemma bridged_no_cycle:
  assumes "sym E" "bridged E"
  shows "\<not> cycle E p"
proof
  assume c: "cycle E p"
  then have ne: "p \<noteq> []" and d: "distinct p" and w: "walk E p" and closing: "(last p, hd p) \<in> E"
    and l2: "length p \<noteq> 2"
    by (simp_all add: cycle_def)
  from ne obtain x p' where p: "p = x # p'" by (cases p) auto
  show False
  proof (cases p')
    case Nil
    with p closing have "(x, x) \<in> E" by simp
    with assms(2) have "(x, x) \<notin> (E - {(x, x), (x, x)})\<^sup>*" unfolding bridged_def by blast
    then show False by simp
  next
    case (Cons y rest)
    with p l2 have rest: "rest \<noteq> []" by auto
    let ?F = "E - {(x, y), (y, x)}"
    have xy: "(x, y) \<in> E" using w p Cons by simp
    have symF: "sym ?F" using assms(1) by (auto simp: sym_def)
    have "walk E (y # rest)" using w p Cons by simp
    moreover have "x \<notin> set (y # rest)" using d p Cons by simp
    ultimately have "walk ?F (y # rest)" by (rule walk_avoiding)
    from walk_rtrancl [OF this] have 1: "(y, last rest) \<in> ?F\<^sup>*" using rest by simp
    have lr: "last rest \<in> set rest" using rest by simp
    then have "last rest \<noteq> x" "last rest \<noteq> y" using d p Cons by auto
    moreover have "(last rest, x) \<in> E" using closing p Cons rest by simp
    ultimately have "(last rest, x) \<in> ?F" by simp
    with 1 have "(y, x) \<in> ?F\<^sup>*" by (rule rtrancl.rtrancl_into_rtrancl)
    then have "(x, y) \<in> ?F\<^sup>*" by (rule rtrancl_sym [OF symF])
    with assms(2) xy show False unfolding bridged_def by blast
  qed
qed

lemma no_cycle_bridged:
  assumes "sym E" "\<And>p. \<not> cycle E p"
  shows "bridged E"
  unfolding bridged_def
proof (intro allI impI notI)
  fix x y
  let ?F = "E - {(x, y), (y, x)}"
  assume xy: "(x, y) \<in> E" and r: "(x, y) \<in> ?F\<^sup>*"
  from rtrancl_simple_walk [OF r]
  obtain p where p: "p \<noteq> []" "hd p = x" "last p = y" "distinct p" "walk ?F p" by blast
  have w: "walk E p" using p(5) by (rule walk_mono) auto
  have yx: "(y, x) \<in> E" using xy assms(1) by (simp add: sym_def)
  have "length p \<noteq> 2"
  proof
    assume "length p = 2"
    then obtain u v where "p = [u, v]"
      by (metis (no_types, opaque_lifting) One_nat_def Suc_1 length_0_conv length_Suc_conv)
    with p show False by auto
  qed
  with p w yx have "cycle E p" by (simp add: cycle_def)
  with assms(2) show False by blast
qed

lemma unique_simple_walk:
  assumes "sym E" "bridged E"
  shows "walk E p \<Longrightarrow> walk E q \<Longrightarrow> distinct p \<Longrightarrow> distinct q \<Longrightarrow> p \<noteq> [] \<Longrightarrow> q \<noteq> [] \<Longrightarrow>
         hd p = hd q \<Longrightarrow> last p = last q \<Longrightarrow> p = q"
proof (induction p arbitrary: q)
  case Nil
  then show ?case by simp
next
  case (Cons x p')
  from Cons.prems obtain q' where q: "q = x # q'" by (cases q) auto
  have single: "r' = []" if "distinct (x # r')" "last (x # r') = x" for r' :: "'a list"
  proof (rule ccontr)
    assume "r' \<noteq> []"
    then have "last (x # r') \<in> set r'" by simp
    with that show False by auto
  qed
  show ?case
  proof (cases p')
    case Nil
    with Cons.prems q have "last (x # q') = x" by simp
    with Cons.prems(4) q have "q' = []" by (intro single) simp_all
    with Nil q show ?thesis by simp
  next
    case py: (Cons y p'')
    have qne: "q' \<noteq> []"
    proof
      assume "q' = []"
      with Cons.prems q have "last (x # p') = x" by simp
      with Cons.prems(3) have "p' = []" by (intro single) simp_all
      with py show False by simp
    qed
    then obtain z q'' where qz: "q' = z # q''" by (cases q') auto
    show ?thesis
    proof (cases "y = z")
      case True
      have "p' = q'"
      proof (rule Cons.IH)
        show "walk E p'" using Cons.prems(1) by (rule walk_tl)
        show "walk E q'" using Cons.prems(2) q by (auto dest: walk_tl)
        show "distinct p'" "distinct q'" using Cons.prems q by simp_all
        show "p' \<noteq> []" "q' \<noteq> []" using py qne by simp_all
        show "hd p' = hd q'" using py qz True by simp
        show "last p' = last q'" using Cons.prems(8) q py qne by simp
      qed
      with q show ?thesis by simp
    next
      case False
      let ?F = "E - {(x, y), (y, x)}"
      have symF: "sym ?F" using assms(1) by (auto simp: sym_def)
      have xy: "(x, y) \<in> E" using Cons.prems(1) py by simp
      have xz: "(x, z) \<in> E" using Cons.prems(2) q qz by simp
      have xny: "x \<noteq> y" using Cons.prems(3) py by auto
      have "walk ?F p'"
        using Cons.prems(1,3) by (intro walk_avoiding) (auto dest: walk_tl)
      from walk_rtrancl [OF this] have 1: "(y, last p') \<in> ?F\<^sup>*" using py by simp
      have "walk ?F q'"
        using Cons.prems(2,4) q by (intro walk_avoiding) (auto dest: walk_tl)
      from walk_rtrancl [OF this] have 2: "(z, last q') \<in> ?F\<^sup>*" using qz by simp
      have "(x, z) \<in> ?F" using xz False xny by auto
      with 2 have "(x, last q') \<in> ?F\<^sup>*" by (simp add: converse_rtrancl_into_rtrancl)
      moreover have "last p' = last q'" using Cons.prems(8) q py qne by simp
      moreover from 1 have "(last p', y) \<in> ?F\<^sup>*" by (rule rtrancl_sym [OF symF])
      ultimately have "(x, y) \<in> ?F\<^sup>*" by (metis rtrancl_trans)
      with assms(2) xy show ?thesis unfolding bridged_def by blast
    qed
  qed
qed


lemma grown_finite: "grown V adj E \<Longrightarrow> finite V \<Longrightarrow> finite E"
proof -
  assume g: "grown V adj E" and f: "finite V"
  have "E \<subseteq> V \<times> V" using grown_adj [OF g] by auto
  with f show ?thesis by (meson finite_SigmaI finite_subset)
qed

lemma class_eq: "sym E \<Longrightarrow> (v, a) \<in> E\<^sup>* \<Longrightarrow> E\<^sup>* `` {v} = E\<^sup>* `` {a}"
  by (auto dest: rtrancl_sym intro: rtrancl_trans)

lemma grown_count:
  assumes fin: "finite V"
  shows "grown V adj E \<Longrightarrow> card (undirected E) + card (components V E) = card V"
proof (induction rule: grown.induct)
  case grown_empty
  have "components V {} = (\<lambda>v. {v}) ` V" by (auto simp: components_def)
  moreover have "card ((\<lambda>v. {v}) ` V) = card V" by (rule card_image) simp
  ultimately show ?case by (simp add: undirected_def)
next
  case (grown_join E a b)
  let ?E' = "E \<union> {(a, b), (b, a)}"
  let ?A = "E\<^sup>* `` {a}"
  let ?B = "E\<^sup>* `` {b}"
  let ?R = "(\<lambda>v. E\<^sup>* `` {v}) ` {v \<in> V. (v, a) \<notin> E\<^sup>* \<and> (v, b) \<notin> E\<^sup>*}"
  have symE: "sym E" using grown_join.hyps(1) by (rule grown_sym)
  have nab: "(a, b) \<notin> E\<^sup>*" by fact
  have nba: "(b, a) \<notin> E\<^sup>*" using nab rtrancl_sym [OF symE] by blast
  have finE: "finite E" using grown_join.hyps(1) fin by (rule grown_finite)
  have mem: "y \<in> ?E'\<^sup>* `` {v} \<longleftrightarrow>
       (v, y) \<in> E\<^sup>* \<or> ((v, a) \<in> E\<^sup>* \<and> (b, y) \<in> E\<^sup>*) \<or> ((v, b) \<in> E\<^sup>* \<and> (a, y) \<in> E\<^sup>*)" for v y
    using rtrancl_join [of v y E a b] by simp
  have eqv: "(v, y) \<in> E\<^sup>* \<longleftrightarrow> (c, y) \<in> E\<^sup>*" if "(v, c) \<in> E\<^sup>*" for v c y
  proof
    assume "(v, y) \<in> E\<^sup>*"
    moreover from that have "(c, v) \<in> E\<^sup>*" by (rule rtrancl_sym [OF symE])
    ultimately show "(c, y) \<in> E\<^sup>*" by (rule rtrancl_trans [rotated])
  next
    assume "(c, y) \<in> E\<^sup>*"
    with that show "(v, y) \<in> E\<^sup>*" by (rule rtrancl_trans)
  qed
  have cls: "?E'\<^sup>* `` {v} = (if (v, a) \<in> E\<^sup>* \<or> (v, b) \<in> E\<^sup>* then ?A \<union> ?B else E\<^sup>* `` {v})" for v
  proof (cases "(v, a) \<in> E\<^sup>*")
    case True
    have "y \<in> ?E'\<^sup>* `` {v} \<longleftrightarrow> y \<in> ?A \<union> ?B" for y
      unfolding mem using eqv [OF True, of y] True by blast
    with True show ?thesis by auto
  next
    case False
    show ?thesis
    proof (cases "(v, b) \<in> E\<^sup>*")
      case True
      have "y \<in> ?E'\<^sup>* `` {v} \<longleftrightarrow> y \<in> ?A \<union> ?B" for y
        unfolding mem using eqv [OF True, of y] True by blast
      with True show ?thesis by auto
    next
      case nb: False
      have "y \<in> ?E'\<^sup>* `` {v} \<longleftrightarrow> y \<in> E\<^sup>* `` {v}" for y
        unfolding mem using False nb by blast
      with False nb show ?thesis by auto
    qed
  qed
  have c1: "components V E = insert ?A (insert ?B ?R)"
  proof
    show "components V E \<subseteq> insert ?A (insert ?B ?R)"
    proof
      fix C assume "C \<in> components V E"
      then obtain v where v: "v \<in> V" "C = E\<^sup>* `` {v}" by (auto simp: components_def)
      show "C \<in> insert ?A (insert ?B ?R)"
      proof (cases "(v, a) \<in> E\<^sup>*")
        case True
        with class_eq [OF symE True] v show ?thesis by simp
      next
        case False
        show ?thesis
        proof (cases "(v, b) \<in> E\<^sup>*")
          case True
          with class_eq [OF symE True] v show ?thesis by simp
        next
          case nb: False
          with False v have "C \<in> ?R" by blast
          then show ?thesis by simp
        qed
      qed
    qed
    show "insert ?A (insert ?B ?R) \<subseteq> components V E"
      using grown_join.hyps(2,3) by (auto simp: components_def)
  qed
  have c2: "components V ?E' = insert (?A \<union> ?B) ?R"
  proof
    show "components V ?E' \<subseteq> insert (?A \<union> ?B) ?R"
    proof
      fix C assume "C \<in> components V ?E'"
      then obtain v where v: "v \<in> V" "C = ?E'\<^sup>* `` {v}" by (auto simp: components_def)
      show "C \<in> insert (?A \<union> ?B) ?R"
      proof (cases "(v, a) \<in> E\<^sup>* \<or> (v, b) \<in> E\<^sup>*")
        case True
        then show ?thesis unfolding v(2) cls by simp
      next
        case False
        then have "E\<^sup>* `` {v} \<in> ?R" using v(1) by blast
        with False show ?thesis unfolding v(2) cls by simp
      qed
    qed
    show "insert (?A \<union> ?B) ?R \<subseteq> components V ?E'"
    proof
      fix C assume "C \<in> insert (?A \<union> ?B) ?R"
      then consider "C = ?A \<union> ?B" | "C \<in> ?R" by blast
      then show "C \<in> components V ?E'"
      proof cases
        case 1
        have "?E'\<^sup>* `` {a} = ?A \<union> ?B" unfolding cls by simp
        with 1 grown_join.hyps(2) show ?thesis unfolding components_def by blast
      next
        case 2
        then obtain v where v: "v \<in> V" "(v, a) \<notin> E\<^sup>*" "(v, b) \<notin> E\<^sup>*" "C = E\<^sup>* `` {v}"
          by blast
        then have "?E'\<^sup>* `` {v} = C" unfolding cls by simp
        with v(1) show ?thesis unfolding components_def by blast
      qed
    qed
  qed
  have inR: "a \<notin> C \<and> b \<notin> C" if "C \<in> ?R" for C
  proof -
    from that obtain v where v: "(v, a) \<notin> E\<^sup>*" "(v, b) \<notin> E\<^sup>*" "C = E\<^sup>* `` {v}" by blast
    show ?thesis unfolding v(3) using v(1,2) by simp
  qed
  have "a \<in> ?A" "b \<in> ?B" by simp_all
  then have AB: "?A \<noteq> ?B" using nba by blast
  have AR: "?A \<notin> ?R" using inR [of ?A] by blast
  have BR: "?B \<notin> ?R" using inR [of ?B] by blast
  have ABR: "?A \<union> ?B \<notin> ?R" using inR [of "?A \<union> ?B"] by blast
  have finR: "finite ?R" using fin by simp
  have k1: "card (components V E) = card ?R + 2"
    unfolding c1 using AB AR BR finR by simp
  have k2: "card (components V ?E') = card ?R + 1"
    unfolding c2 using ABR finR by simp
  have u1: "undirected ?E' = insert {a, b} (undirected E)"
    by (auto simp: undirected_def insert_commute)
  have u2: "{a, b} \<notin> undirected E"
  proof
    assume "{a, b} \<in> undirected E"
    then obtain x y where "(x, y) \<in> E" "{a, b} = {x, y}" by (auto simp: undirected_def)
    then have "(a, b) \<in> E \<or> (b, a) \<in> E" by (auto simp: doubleton_eq_iff)
    with nab nba show False by auto
  qed
  have "finite (undirected E)" using finE by (simp add: undirected_def)
  with u1 u2 have k3: "card (undirected ?E') = card (undirected E) + 1" by simp
  from grown_join.IH k1 k2 k3 show ?case by simp
qed

section \<open>The maze makers\<close>

lemma adjacent_sym: "adjacent a b \<Longrightarrow> adjacent b a"
  by (auto simp: adjacent_def)

lemma wired_grid_fresh [simp]: "wired_grid nr nc (fresh_grid nr nc)"
  by (simp add: wired_grid_def) (simp add: fresh_grid_def)

lemma link_rel_fresh [simp]: "link_rel (fresh_grid nr nc) = {}"
  by (simp add: link_rel_def is_linked_def fresh_grid_def)

lemma maze_inv_fresh: "maze_inv nr nc (fresh_grid nr nc)"
  by (simp add: maze_inv_def grown_empty)

lemma get_neighbor_wired:
  assumes "wired_grid nr nc g" "in_grid nr nc c"
  shows "get_neighbor g c NORTH = Inr (cell_at nr nc (row c - 1) (col c))"
    and "get_neighbor g c SOUTH = Inr (cell_at nr nc (row c + 1) (col c))"
    and "get_neighbor g c EAST = Inr (cell_at nr nc (row c) (col c + 1))"
    and "get_neighbor g c WEST = Inr (cell_at nr nc (row c) (col c - 1))"
  using assms by (simp_all add: get_neighbor_def wired_grid_def wired_def)

lemma set_set_add [simp]: "set (set_add x xs) = insert x (set xs)"
  by (auto simp: set_add_def)

lemma link_rel_link_one: "link_rel (link_one a b g) = insert (a, b) (link_rel g)"
  by (auto simp: link_rel_def is_linked_def link_one_def split: if_splits)

lemma wired_grid_link_one: "wired_grid nr nc (link_one a b g) = wired_grid nr nc g"
  by (simp add: wired_grid_def link_one_def)

lemma link_Some:
  "link a (Some b) g = Inr (link_one b a (link_one a b g))"
  by (simp add: link_def)

lemma maze_inv_link:
  assumes "maze_inv nr nc g" "in_grid nr nc a" "in_grid nr nc b" "adjacent a b"
    "(a, b) \<notin> (link_rel g)\<^sup>*"
  shows "\<exists>g'. link a (Some b) g = Inr g' \<and> maze_inv nr nc g'
           \<and> link_rel g' = link_rel g \<union> {(a, b), (b, a)}"
proof -
  let ?g' = "link_one b a (link_one a b g)"
  have lr: "link_rel ?g' = link_rel g \<union> {(a, b), (b, a)}"
    by (auto simp: link_rel_link_one)
  have "grown (Collect (in_grid nr nc)) adjacent (link_rel g \<union> {(a, b), (b, a)})"
    using assms by (intro grown_join) (simp_all add: maze_inv_def adjacent_sym)
  then have "maze_inv nr nc ?g'"
    using assms(1) by (simp add: maze_inv_def lr wired_grid_link_one)
  with lr show ?thesis by (simp add: link_Some)
qed

lemma no_edge_not_reached:
  assumes "(x, y) \<in> R\<^sup>*" "x \<noteq> y"
  shows "\<exists>z. (z, y) \<in> R"
  using assms by (induction rule: rtrancl_induct) auto

lemma random_choice_in:
  "xs \<noteq> [] \<Longrightarrow> \<exists>x k'. random_choice rnd k xs = Inr (x, k') \<and> x \<in> set xs"
  by (simp add: random_choice_def)

lemma connected_by_hub:
  assumes "sym R" "\<And>x. x \<in> V \<Longrightarrow> (x, h) \<in> R\<^sup>*"
  shows "x \<in> V \<Longrightarrow> y \<in> V \<Longrightarrow> (x, y) \<in> R\<^sup>*"
  using assms by (meson rtrancl_sym rtrancl_trans)


subsection \<open>Binary tree\<close>

lemma se_adjacent: "se x y \<Longrightarrow> adjacent x y"
  by (auto simp: se_def adjacent_def row_def col_def)

lemma bt_not_connected:
  fixes phi :: "cell \<Rightarrow> int"
  assumes L: "L = U \<union> U\<inverse>" and U: "U = {(x, out x) | x. x \<in> P}" and c: "c \<notin> P"
    and up: "\<forall>x \<in> P. phi (out x) = phi x + 1" and n: "phi n = phi c + 1"
  shows "(c, n) \<notin> L\<^sup>*"
proof
  assume r: "(c, n) \<in> L\<^sup>*"
  have mono: "phi x \<le> phi y" if "(x, y) \<in> U\<^sup>*" for x y
    using that
  proof (induction rule: rtrancl_induct)
    case base
    then show ?case by simp
  next
    case (step y z)
    from step.hyps(2) up have "phi z = phi y + 1" unfolding U by auto
    with step.IH show ?case by simp
  qed
  have "n \<in> {x. (x, c) \<in> U\<^sup>*}"
    using r
  proof (rule closed_set_rtrancl)
    show "c \<in> {x. (x, c) \<in> U\<^sup>*}" by simp
    show "y \<in> {x. (x, c) \<in> U\<^sup>*}" if "x \<in> {x. (x, c) \<in> U\<^sup>*}" "(x, y) \<in> L" for x y
    proof -
      from that(1) have xc: "(x, c) \<in> U\<^sup>*" by simp
      from that(2) L consider "(x, y) \<in> U" | "(y, x) \<in> U" by auto
      then show ?thesis
      proof cases
        case 1
        then have xP: "x \<in> P" "y = out x" unfolding U by auto
        with c have "x \<noteq> c" by auto
        with xc obtain y' where y': "(x, y') \<in> U" "(y', c) \<in> U\<^sup>*"
          by (meson converse_rtranclE)
        then have "y' = out x" unfolding U by auto
        with xP y' show ?thesis by simp
      next
        case 2
        with xc show ?thesis by (simp add: converse_rtrancl_into_rtrancl)
      qed
    qed
  qed
  then have "phi n \<le> phi c" using mono by simp
  with n show False by simp
qed

lemma bt_connected:
  assumes out: "\<And>x. in_grid nr nc x \<Longrightarrow> has_se nr nc x \<Longrightarrow>
                  in_grid nr nc (out x) \<and> se x (out x) \<and> (x, out x) \<in> L"
  shows "in_grid nr nc x \<Longrightarrow> (x, (nr - 1, nc - 1)) \<in> L\<^sup>*"
proof (induction "nat ((nr - 1 - row x) + (nc - 1 - col x))" arbitrary: x rule: less_induct)
  case less
  show ?case
  proof (cases "has_se nr nc x")
    case False
    with less.prems have "x = (nr - 1, nc - 1)"
      by (cases x) (auto simp: has_se_def in_grid_def row_def col_def)
    then show ?thesis by simp
  next
    case True
    from out [OF less.prems True]
    have o: "in_grid nr nc (out x)" "se x (out x)" "(x, out x) \<in> L" by simp_all
    have "nat ((nr - 1 - row (out x)) + (nc - 1 - col (out x)))
            < nat ((nr - 1 - row x) + (nc - 1 - col x))"
      using o(1,2) less.prems by (auto simp: se_def in_grid_def row_def col_def)
    from less.hyps [OF this o(1)] o(3) show ?thesis
      by (simp add: converse_rtrancl_into_rtrancl)
  qed
qed

lemma bt_step:
  assumes cs: "grid_cells nr nc = pre @ c # post" and inv: "bt_inv nr nc pre gk"
  shows "\<exists>gk'. binary_tree_cell rnd c gk = Inr gk' \<and> bt_inv nr nc (pre @ [c]) gk'"
proof -
  obtain g k where gk: "gk = (g, k)" by (cases gk)
  from inv obtain out where mi: "maze_inv nr nc g"
    and out: "\<forall>x \<in> set pre. has_se nr nc x \<longrightarrow> in_grid nr nc (out x) \<and> se x (out x)"
    and lr: "link_rel g = {(x, out x) | x. x \<in> set pre \<and> has_se nr nc x}
                 \<union> {(out x, x) | x. x \<in> set pre \<and> has_se nr nc x}"
    unfolding bt_inv_def gk by auto
  have "c \<in> set (grid_cells nr nc)" by (simp add: cs)
  then have c: "in_grid nr nc c" by simp
  have "distinct (pre @ c # post)" using distinct_grid_cells [of nr nc] by (simp add: cs)
  then have cpre: "c \<notin> set pre" by simp
  have wg: "wired_grid nr nc g" using mi by (simp add: maze_inv_def)
  let ?south = "cell_at nr nc (row c + 1) (col c)"
  let ?east = "cell_at nr nc (row c) (col c + 1)"
  let ?ns = "present ?south @ present ?east"
  have body: "binary_tree_cell rnd c gk =
         (if ?ns \<noteq> []
          then and_then (random_choice rnd k ?ns) (\<lambda>chosen.
               and_then (link c (Some (fst chosen)) g) (\<lambda>g'. Inr (g', snd chosen)))
          else Inr gk)"
    by (simp add: binary_tree_cell_def gk get_neighbor_wired [OF wg c] Let_def)
  have ns: "set ?ns = {y. se c y \<and> in_grid nr nc y}"
    by (auto simp: present_def cell_at_def se_def)
  show ?thesis
  proof (cases "has_se nr nc c")
    case False
    then have "?ns = []" by (simp add: present_def cell_at_def has_se_def)
    then have "binary_tree_cell rnd c gk = Inr gk" by (simp add: body)
    moreover have "bt_inv nr nc (pre @ [c]) gk"
      unfolding bt_inv_def gk using mi out lr False by (intro conjI exI [of _ out]) auto
    ultimately show ?thesis by blast
  next
    case True
    then have ne: "?ns \<noteq> []" by (auto simp: present_def cell_at_def has_se_def)
    from random_choice_in [OF ne, of rnd k]
    obtain n k' where ch: "random_choice rnd k ?ns = Inr (n, k')" "n \<in> set ?ns" by blast
    from ch(2) ns have n: "se c n" "in_grid nr nc n" by auto
    have nc': "(c, n) \<notin> (link_rel g)\<^sup>*"
    proof (rule bt_not_connected [where phi = "\<lambda>x. row x + col x" and out = out
          and P = "{x. x \<in> set pre \<and> has_se nr nc x}"
          and U = "{(x, out x) | x. x \<in> set pre \<and> has_se nr nc x}"])
      show "link_rel g = {(x, out x) | x. x \<in> set pre \<and> has_se nr nc x}
              \<union> {(x, out x) | x. x \<in> set pre \<and> has_se nr nc x}\<inverse>"
        unfolding lr by auto
      show "{(x, out x) | x. x \<in> set pre \<and> has_se nr nc x}
              = {(x, out x) | x. x \<in> {x. x \<in> set pre \<and> has_se nr nc x}}" by simp
      show "c \<notin> {x. x \<in> set pre \<and> has_se nr nc x}" using cpre by simp
      show "\<forall>x \<in> {x. x \<in> set pre \<and> has_se nr nc x}. row (out x) + col (out x) = row x + col x + 1"
        using out by (auto simp: se_def row_def col_def)
      show "row n + col n = row c + col c + 1"
        using n(1) by (auto simp: se_def row_def col_def)
    qed
    from maze_inv_link [OF mi c n(2) se_adjacent [OF n(1)] nc']
    obtain g' where g': "link c (Some n) g = Inr g'" "maze_inv nr nc g'"
      "link_rel g' = link_rel g \<union> {(c, n), (n, c)}" by blast
    have "binary_tree_cell rnd c gk = Inr (g', k')"
      using ne by (simp add: body ch(1) g'(1))
    moreover have "bt_inv nr nc (pre @ [c]) (g', k')"
      unfolding bt_inv_def
    proof (intro conjI exI [of _ "out(c := n)"])
      show "maze_inv nr nc (fst (g', k'))" using g'(2) by simp
      show "\<forall>x \<in> set (pre @ [c]). has_se nr nc x \<longrightarrow>
              in_grid nr nc ((out(c := n)) x) \<and> se x ((out(c := n)) x)"
        using out n by auto
      show "link_rel (fst (g', k')) =
              {(x, (out(c := n)) x) | x. x \<in> set (pre @ [c]) \<and> has_se nr nc x}
              \<union> {((out(c := n)) x, x) | x. x \<in> set (pre @ [c]) \<and> has_se nr nc x}"
        using True cpre by (auto simp: g'(3) lr)
    qed
    ultimately show ?thesis by blast
  qed
qed

lemma binary_tree_result:
  "\<exists>g'. binary_tree_make_maze rnd (fresh_grid nr nc) = Inr g'
         \<and> maze_inv nr nc g' \<and> connected_grid nr nc g'"
proof -
  have "\<exists>gk'. for_each (grid_cells nr nc) (binary_tree_cell rnd) (fresh_grid nr nc, 0) = Inr gk'
          \<and> bt_inv nr nc (grid_cells nr nc) gk'"
  proof (rule for_each_rule)
    show "bt_inv nr nc [] (fresh_grid nr nc, 0)"
      by (simp add: bt_inv_def maze_inv_fresh)
    show "\<exists>s'. binary_tree_cell rnd x s = Inr s' \<and> bt_inv nr nc (pre @ [x]) s'"
      if "grid_cells nr nc = pre @ x # post" "bt_inv nr nc pre s" for pre x post s
      using that by (rule bt_step)
  qed
  then obtain g' k' where r: "for_each (grid_cells nr nc) (binary_tree_cell rnd) (fresh_grid nr nc, 0)
      = Inr (g', k')" and inv: "bt_inv nr nc (grid_cells nr nc) (g', k')"
    by (metis surj_pair)
  from inv obtain out where mi: "maze_inv nr nc g'"
    and out: "\<forall>x \<in> set (grid_cells nr nc). has_se nr nc x \<longrightarrow> in_grid nr nc (out x) \<and> se x (out x)"
    and lr: "link_rel g' = {(x, out x) | x. x \<in> set (grid_cells nr nc) \<and> has_se nr nc x}
                 \<union> {(out x, x) | x. x \<in> set (grid_cells nr nc) \<and> has_se nr nc x}"
    unfolding bt_inv_def by auto
  have symL: "sym (link_rel g')" using mi by (auto simp: maze_inv_def dest: grown_sym)
  have hub: "(x, (nr - 1, nc - 1)) \<in> (link_rel g')\<^sup>*" if "in_grid nr nc x" for x
    using _ that
  proof (rule bt_connected [where out = out])
    show "in_grid nr nc (out x) \<and> se x (out x) \<and> (x, out x) \<in> link_rel g'"
      if "in_grid nr nc x" "has_se nr nc x" for x
    proof -
      have x: "x \<in> set (grid_cells nr nc)" using that(1) by simp
      from bspec [OF out x] that(2) have "in_grid nr nc (out x) \<and> se x (out x)" by blast
      moreover have "(x, out x) \<in> link_rel g'" unfolding lr using x that(2) by blast
      ultimately show ?thesis by blast
    qed
  qed
  have "connected_grid nr nc g'"
    unfolding connected_grid_def
    using connected_by_hub [OF symL, of "Collect (in_grid nr nc)" "(nr - 1, nc - 1)"] hub
    by blast
  with r mi show ?thesis by (simp add: binary_tree_make_maze_def)
qed

subsection \<open>Sidewinder\<close>

lemma connected_on_mono: "connected_on S L \<Longrightarrow> L \<subseteq> L' \<Longrightarrow> connected_on S L'"
  unfolding connected_on_def by (meson rtrancl_mono subsetD)

lemma connected_on_single [simp]: "connected_on {x} L"
  by (simp add: connected_on_def)

lemma connected_on_empty [simp]: "connected_on {} L"
  by (simp add: connected_on_def)

lemma connected_on_union:
  assumes "connected_on S L" "connected_on T L" "sym L" "a \<in> S" "b \<in> T" "(a, b) \<in> L\<^sup>*"
  shows "connected_on (S \<union> T) L"
  unfolding connected_on_def
proof (intro allI impI)
  fix x y assume x: "x \<in> S \<union> T" and y: "y \<in> S \<union> T"
  have ba: "(b, a) \<in> L\<^sup>*" using assms(3,6) by (rule rtrancl_sym)
  have xa: "(x, a) \<in> L\<^sup>*"
  proof (cases "x \<in> S")
    case True
    with assms(1,4) show ?thesis by (simp add: connected_on_def)
  next
    case False
    with x assms(2,5) have xb: "(x, b) \<in> L\<^sup>*" by (simp add: connected_on_def)
    from xb ba show ?thesis by (rule rtrancl_trans)
  qed
  have ay: "(a, y) \<in> L\<^sup>*"
  proof (cases "y \<in> S")
    case True
    with assms(1,4) show ?thesis by (simp add: connected_on_def)
  next
    case False
    with y assms(2,5) have by': "(b, y) \<in> L\<^sup>*" by (simp add: connected_on_def)
    from assms(6) by' show ?thesis by (rule rtrancl_trans)
  qed
  from xa ay show "(x, y) \<in> L\<^sup>*" by (rule rtrancl_trans)
qed

lemma within_closed:
  assumes "within L A B" "A \<inter> B = {}" "(x, y) \<in> L\<^sup>*" "x \<in> B"
  shows "y \<in> B"
  using assms(3,4)
proof (rule closed_set_rtrancl)
  fix u v assume "u \<in> B" "(u, v) \<in> L"
  with assms(1,2) show "v \<in> B" unfolding within_def by blast
qed

lemma sw_open_last [simp]: "sw_open r j j = {(r, j)}"
  by (auto simp: sw_open_def row_def col_def)

lemma sw_open_Suc: "s \<le> j + 1 \<Longrightarrow> sw_open r s (j + 1) = insert (r, j + 1) (sw_open r s j)"
  by (auto simp: sw_open_def row_def col_def)

lemma sw_attached_Suc:
  "0 \<le> r \<Longrightarrow> r < nr \<Longrightarrow> 0 \<le> s \<Longrightarrow> s \<le> j \<Longrightarrow> j < nc \<Longrightarrow>
     sw_attached nr nc r (j + 1) = sw_attached nr nc r s \<union> sw_open r s j"
  by (auto simp: sw_attached_def sw_open_def in_grid_def)

lemma sw_disjoint: "sw_attached nr nc r s \<inter> sw_open r s j = {}"
  by (auto simp: sw_attached_def sw_open_def)

lemma mem_sw_open: "(r', m) \<in> sw_open r s j \<longleftrightarrow> r' = r \<and> s \<le> m \<and> m \<le> j"
  by (auto simp: sw_open_def row_def col_def)

lemma mem_sw_attached:
  "(r', m) \<in> sw_attached nr nc r s \<longleftrightarrow> in_grid nr nc (r', m) \<and> (r' < r \<or> (r' = r \<and> m < s))"
  by (auto simp: sw_attached_def row_def col_def)

lemma within_mono: "within L A B \<Longrightarrow> A \<subseteq> A' \<Longrightarrow> B \<subseteq> B' \<Longrightarrow> within L A' B'"
  unfolding within_def by blast

lemma within_join:
  "within L A B \<Longrightarrow> (a \<in> A \<and> b \<in> A) \<or> (a \<in> B \<and> b \<in> B) \<Longrightarrow> within (L \<union> {(a, b), (b, a)}) A B"
  unfolding within_def by blast

lemma upto_snoc: "s \<le> j \<Longrightarrow> [s..j - 1] @ [j] = [s..j]"
  using upto_rec2 [of s j] by simp

lemma sw_step:
  assumes inv: "sw_inv nr nc r j s g run" and j: "0 \<le> j" "j < nc"
  shows "\<exists>g' k' run' s'. sidewinder_cell rnd (r, j) ((g, k), run) = Inr ((g', k'), run')
           \<and> sw_inv nr nc r (j + 1) s' g' run'"
proof -
  let ?L = "link_rel g"
  let ?A = "sw_attached nr nc r s"
  let ?W = "sw_open r s j"
  from inv have mi: "maze_inv nr nc g" and r: "0 \<le> r" "r < nr" and s: "0 \<le> s" "s \<le> j"
    and run: "run = map (\<lambda>c. (r, c)) [s..j - 1]"
    and r0: "r = 0 \<longrightarrow> s = 0"
    and wi: "within ?L ?A ?W" and cA: "connected_on ?A ?L" and cW: "connected_on ?W ?L"
    using j by (simp_all add: sw_inv_def)
  have wg: "wired_grid nr nc g" using mi by (simp add: maze_inv_def)
  have symL: "sym ?L" using mi by (auto simp: maze_inv_def dest: grown_sym)
  have c: "in_grid nr nc (r, j)" using r j by (simp add: in_grid_def row_def col_def)
  have "run @ [(r, j)] = map (\<lambda>c. (r, c)) ([s..j - 1] @ [j])" by (simp add: run)
  then have run1: "run @ [(r, j)] = map (\<lambda>c. (r, c)) [s..j]"
    unfolding upto_snoc [OF s(2)] .
  let ?east = "cell_at nr nc r (j + 1)"
  let ?north = "cell_at nr nc (r - 1) j"
  let ?coin = "if ?east = None \<or> ?north = None then (0, k) else random_randint rnd k 0 1"
  let ?close = "?east = None \<or> (?north \<noteq> None \<and> fst ?coin = 0)"
  have gn: "get_neighbor g (r, j) EAST = Inr ?east" "get_neighbor g (r, j) NORTH = Inr ?north"
    using get_neighbor_wired [OF wg c] by (simp_all add: row_def col_def)
  have east: "?east = None \<longleftrightarrow> nc \<le> j + 1"
    using r j by (simp add: cell_at_def in_grid_def row_def col_def)
  have north: "?north = None \<longleftrightarrow> r = 0"
    using r j by (auto simp: cell_at_def in_grid_def row_def col_def)
  show ?thesis
  proof (cases ?close)
    case True
    have ne: "run @ [(r, j)] \<noteq> []" by simp
    from random_choice_in [OF ne, of rnd "snd ?coin"]
    obtain mem k1 where ch: "random_choice rnd (snd ?coin) (run @ [(r, j)]) = Inr (mem, k1)"
      "mem \<in> set (run @ [(r, j)])" by blast
    from ch(2) obtain m where m: "mem = (r, m)" "s \<le> m" "m \<le> j"
      unfolding run1 by auto
    have memg: "in_grid nr nc mem" using m r s j by (simp add: in_grid_def row_def col_def)
    let ?mn = "cell_at nr nc (r - 1) m"
    have gm: "get_neighbor g mem NORTH = Inr ?mn"
      using get_neighbor_wired(1) [OF wg memg] by (simp add: m row_def col_def)
    have mn: "?mn = None \<longleftrightarrow> r = 0"
      using r m s j by (auto simp: cell_at_def in_grid_def row_def col_def)
    have A': "sw_attached nr nc r (j + 1) = ?A \<union> ?W"
      using r s j by (intro sw_attached_Suc) simp_all
    show ?thesis
    proof (cases "r = 0")
      case r0': True
      with True north have ea: "nc \<le> j + 1" using east by auto
      have res: "sidewinder_cell rnd (r, j) ((g, k), run) = Inr ((g, k1), [])"
        using True gn ch(1) gm mn north r0' by (simp add: sidewinder_cell_def Let_def)
      have s0: "s = 0" using r0 r0' by simp
      have "?A = {}" using r0' s0 by (auto simp: sw_attached_def in_grid_def)
      then have A0: "sw_attached nr nc r (j + 1) = ?W" using A' by simp
      have "sw_inv nr nc r (j + 1) (j + 1) g []"
        unfolding sw_inv_def A0
      proof (intro conjI impI)
        show "within ?L ?W (sw_open r (j + 1) (j + 1))"
          using wi \<open>?A = {}\<close> unfolding within_def by blast
        show "connected_on ?W ?L" by (rule cW)
      qed (use mi r j ea in simp_all)
      with res show ?thesis by blast
    next
      case rpos: False
      let ?n = "(r - 1, m)"
      have mn': "?mn = Some ?n" using mn rpos by (auto simp: cell_at_def split: if_splits)
      have ng: "in_grid nr nc ?n" using mn' by (simp add: cell_at_def split: if_splits)
      have nA: "?n \<in> ?A" using ng by (simp add: mem_sw_attached)
      have mW: "mem \<in> ?W" using m by (simp add: mem_sw_open)
      have adj: "adjacent mem ?n" by (simp add: adjacent_def m row_def col_def)
      have nconn: "(mem, ?n) \<notin> ?L\<^sup>*"
      proof
        assume "(mem, ?n) \<in> ?L\<^sup>*"
        from within_closed [OF wi sw_disjoint this mW] have "?n \<in> ?W" .
        then show False by (simp add: mem_sw_open)
      qed
      from maze_inv_link [OF mi memg ng adj nconn]
      obtain g' where g': "link mem (Some ?n) g = Inr g'" "maze_inv nr nc g'"
        "link_rel g' = ?L \<union> {(mem, ?n), (?n, mem)}" by blast
      have res: "sidewinder_cell rnd (r, j) ((g, k), run) = Inr ((g', k1), [])"
        using True gn ch(1) gm mn' g'(1) by (simp add: sidewinder_cell_def Let_def)
      have sub: "?L \<subseteq> link_rel g'" using g'(3) by auto
      have symL': "sym (link_rel g')" using g'(2) by (auto simp: maze_inv_def dest: grown_sym)
      have "sw_inv nr nc r (j + 1) (j + 1) g' []"
        unfolding sw_inv_def A'
      proof (intro conjI impI)
        show "within (link_rel g') (?A \<union> ?W) (sw_open r (j + 1) (j + 1))"
          unfolding g'(3) using wi nA mW
          by (intro within_join) (auto simp: within_def)
        show "connected_on (?A \<union> ?W) (link_rel g')"
        proof (rule connected_on_union [where a = ?n and b = mem])
          show "connected_on ?A (link_rel g')" using cA sub by (rule connected_on_mono)
          show "connected_on ?W (link_rel g')" using cW sub by (rule connected_on_mono)
          show "(?n, mem) \<in> (link_rel g')\<^sup>*" unfolding g'(3) by blast
        qed (use symL' nA mW in simp_all)
      qed (use g'(2) r j rpos in simp_all)
      with res show ?thesis by blast
    qed
  next
    case False
    then have ea: "j + 1 < nc" using east by auto
    let ?e = "(r, j + 1)"
    have east': "?east = Some ?e"
      using ea r j by (simp add: cell_at_def in_grid_def row_def col_def)
    have eg: "in_grid nr nc ?e" using ea r j by (simp add: in_grid_def row_def col_def)
    have adj: "adjacent (r, j) ?e" by (simp add: adjacent_def row_def col_def)
    have nconn: "((r, j), ?e) \<notin> ?L\<^sup>*"
    proof
      assume "((r, j), ?e) \<in> ?L\<^sup>*"
      then obtain z where "(z, ?e) \<in> ?L" by (rule no_edge_not_reached [THEN exE]) simp
      with wi have "?e \<in> ?A \<or> ?e \<in> ?W" unfolding within_def by blast
      then show False using s by (simp add: mem_sw_attached mem_sw_open)
    qed
    from maze_inv_link [OF mi c eg adj nconn]
    obtain g' where g': "link (r, j) (Some ?e) g = Inr g'" "maze_inv nr nc g'"
      "link_rel g' = ?L \<union> {((r, j), ?e), (?e, (r, j))}" by blast
    have res: "sidewinder_cell rnd (r, j) ((g, k), run)
                 = Inr ((g', snd ?coin), run @ [(r, j)])"
      using False gn east' g'(1) by (auto simp add: sidewinder_cell_def Let_def split: if_splits)
    have sub: "?L \<subseteq> link_rel g'" using g'(3) by auto
    have symL': "sym (link_rel g')" using g'(2) by (auto simp: maze_inv_def dest: grown_sym)
    have W': "sw_open r s (j + 1) = insert ?e ?W" using s by (intro sw_open_Suc) simp
    have cW': "(r, j) \<in> ?W" using s by (simp add: mem_sw_open)
    have "sw_inv nr nc r (j + 1) s g' (run @ [(r, j)])"
      unfolding sw_inv_def W'
    proof (intro conjI impI)
      show "run @ [(r, j)] = map (\<lambda>c. (r, c)) [s..j + 1 - 1]" using run1 by simp
      show "within (link_rel g') ?A (insert ?e ?W)"
        unfolding g'(3) using wi cW'
        by (intro within_join) (auto simp: within_def)
      show "connected_on ?A (link_rel g')" using cA sub by (rule connected_on_mono)
      have "connected_on (?W \<union> {?e}) (link_rel g')"
      proof (rule connected_on_union [where a = "(r, j)" and b = ?e])
        show "connected_on ?W (link_rel g')" using cW sub by (rule connected_on_mono)
        show "((r, j), ?e) \<in> (link_rel g')\<^sup>*" unfolding g'(3) by blast
      qed (use symL' cW' in simp_all)
      then show "connected_on (insert ?e ?W) (link_rel g')" by simp
    qed (use g'(2) r s j ea r0 in simp_all)
    with res show ?thesis by blast
  qed
qed


lemma map_py_range_split:
  assumes "map f (py_range n) = pre @ x # post"
  shows "x = f (int (length pre))" and "int (length pre) < n"
proof -
  have "length (map f (py_range n)) = length (pre @ x # post)" using assms by simp
  then have l: "length pre < nat n" by simp
  then show "int (length pre) < n" by simp
  have "map f (py_range n) ! length pre = x" using assms by simp
  with l show "x = f (int (length pre))" by simp
qed

lemma sw_row_result:
  assumes dn: "sw_done nr nc r g" and r: "0 \<le> r" "r < nr"
  shows "\<exists>g' k'. sidewinder_row rnd (row_cells nc r) (g, k) = Inr (g', k') \<and> sw_done nr nc (r + 1) g'"
proof -
  let ?I = "\<lambda>pre (st :: (grid \<times> nat) \<times> cell list). \<exists>s. sw_inv nr nc r (int (length pre)) s (fst (fst st)) (snd st)"
  from dn have mi: "maze_inv nr nc g" and wi: "within (link_rel g) (sw_attached nr nc r 0) {}"
    and co: "connected_on (sw_attached nr nc r 0) (link_rel g)"
    by (simp_all add: sw_done_def)
  have "\<exists>st. for_each (row_cells nc r) (sidewinder_cell rnd) ((g, k), []) = Inr st
          \<and> ?I (row_cells nc r) st"
  proof (rule for_each_rule)
    have "sw_inv nr nc r 0 0 g []"
      unfolding sw_inv_def
    proof (intro conjI impI)
      show "within (link_rel g) (sw_attached nr nc r 0) (sw_open r 0 0)"
        using wi by (rule within_mono) simp_all
    qed (use mi r co in simp_all)
    then show "?I [] ((g, k), [])" by auto
  next
    fix pre x post st
    assume split: "row_cells nc r = pre @ x # post" and I: "?I pre st"
    obtain g1 k1 run where st: "st = ((g1, k1), run)" by (metis surj_pair)
    from I st obtain s where inv: "sw_inv nr nc r (int (length pre)) s g1 run" by auto
    from map_py_range_split [OF split [unfolded row_cells_def]]
    have x: "x = (r, int (length pre))" and l: "int (length pre) < nc" by simp_all
    from sw_step [OF inv _ l, where rnd = rnd and k = k1]
    obtain g' k' run' s' where "sidewinder_cell rnd (r, int (length pre)) ((g1, k1), run) = Inr ((g', k'), run')"
      "sw_inv nr nc r (int (length pre) + 1) s' g' run'" by auto
    then show "\<exists>st'. sidewinder_cell rnd x st = Inr st' \<and> ?I (pre @ [x]) st'"
      unfolding x st by (auto simp: add.commute)
  qed
  then obtain g' k' run' s where fe: "for_each (row_cells nc r) (sidewinder_cell rnd) ((g, k), []) = Inr ((g', k'), run')"
    and inv: "sw_inv nr nc r (int (length (row_cells nc r))) s g' run'"
    by (metis surj_pair fst_conv snd_conv)
  have res: "sidewinder_row rnd (row_cells nc r) (g, k) = Inr (g', k')"
    by (simp add: sidewinder_row_def fe)
  have mi': "maze_inv nr nc g'" using inv by (simp add: sw_inv_def)
  have "sw_done nr nc (r + 1) g'"
  proof (cases "0 < nc")
    case True
    then have len: "int (length (row_cells nc r)) = nc" by (simp add: row_cells_def)
    from inv [unfolded len] have s: "s = nc"
      and wi': "within (link_rel g') (sw_attached nr nc r nc) (sw_open r nc nc)"
      and co': "connected_on (sw_attached nr nc r nc) (link_rel g')"
      by (auto simp: sw_inv_def)
    have A: "sw_attached nr nc r nc = sw_attached nr nc (r + 1) 0"
      by (auto simp: sw_attached_def in_grid_def)
    have "within (link_rel g') (sw_attached nr nc (r + 1) 0) {}"
      unfolding within_def
    proof (intro allI impI)
      fix x y assume e: "(x, y) \<in> link_rel g'"
      from mi' have "grown (Collect (in_grid nr nc)) adjacent (link_rel g')" by (simp add: maze_inv_def)
      from grown_adj [OF this e] have "in_grid nr nc x" by simp
      then have "x \<notin> sw_open r nc nc" by (auto simp: sw_open_def in_grid_def row_def col_def)
      with wi' e show "(x \<in> sw_attached nr nc (r + 1) 0 \<and> y \<in> sw_attached nr nc (r + 1) 0) \<or> (x \<in> {} \<and> y \<in> {})"
        unfolding within_def A by blast
    qed
    with mi' co' show ?thesis by (simp add: sw_done_def A)
  next
    case False
    then have e: "sw_attached nr nc r' 0 = {}" for r'
      by (auto simp: sw_attached_def in_grid_def)
    from mi' have gr: "grown (Collect (in_grid nr nc)) adjacent (link_rel g')" by (simp add: maze_inv_def)
    have "link_rel g' = {}"
    proof -
      have "False" if "(x, y) \<in> link_rel g'" for x y
        using grown_adj [OF gr that] False by (simp add: in_grid_def)
      then show ?thesis by auto
    qed
    with mi' show ?thesis by (simp add: sw_done_def e within_def)
  qed
  with res show ?thesis by blast
qed

lemma sidewinder_result:
  "\<exists>g'. sidewinder_make_maze rnd (fresh_grid nr nc) = Inr g'
         \<and> maze_inv nr nc g' \<and> connected_grid nr nc g'"
proof -
  let ?I = "\<lambda>pre (gk :: grid \<times> nat). sw_done nr nc (int (length pre)) (fst gk)"
  have rows: "grid_rows nr nc = map (row_cells nc) (py_range nr)"
    by (simp add: grid_rows_def row_cells_def)
  have "\<exists>gk'. for_each (grid_rows nr nc) (sidewinder_row rnd) (fresh_grid nr nc, 0) = Inr gk'
          \<and> ?I (grid_rows nr nc) gk'"
  proof (rule for_each_rule)
    have "sw_attached nr nc 0 0 = {}" by (auto simp: sw_attached_def in_grid_def)
    then show "?I [] (fresh_grid nr nc, 0)"
      by (simp add: sw_done_def maze_inv_fresh within_def)
  next
    fix pre x post gk
    assume split: "grid_rows nr nc = pre @ x # post" and I: "?I pre gk"
    obtain g k where gk: "gk = (g, k)" by (cases gk)
    from map_py_range_split [OF split [unfolded rows]]
    have x: "x = row_cells nc (int (length pre))" and l: "int (length pre) < nr" by simp_all
    from I gk have "sw_done nr nc (int (length pre)) g" by simp
    from sw_row_result [OF this _ l, where rnd = rnd and k = k]
    show "\<exists>gk'. sidewinder_row rnd x gk = Inr gk' \<and> ?I (pre @ [x]) gk'"
      unfolding x gk by (auto simp: add.commute)
  qed
  then obtain g' k' where fe: "for_each (grid_rows nr nc) (sidewinder_row rnd) (fresh_grid nr nc, 0) = Inr (g', k')"
    and dn: "sw_done nr nc (int (length (grid_rows nr nc))) g'"
    by (metis surj_pair fst_conv)
  have res: "sidewinder_make_maze rnd (fresh_grid nr nc) = Inr g'"
    using fe by (simp add: sidewinder_make_maze_def) (simp add: fresh_grid_def)
  have mi: "maze_inv nr nc g'" using dn by (simp add: sw_done_def)
  have "connected_grid nr nc g'"
  proof (cases "0 < nr")
    case True
    then have "int (length (grid_rows nr nc)) = nr" by (simp add: grid_rows_def)
    with dn have co: "connected_on (sw_attached nr nc nr 0) (link_rel g')" by (simp add: sw_done_def)
    have "sw_attached nr nc nr 0 = Collect (in_grid nr nc)"
      by (auto simp: sw_attached_def in_grid_def)
    with co show ?thesis by (simp add: connected_on_def connected_grid_def)
  next
    case False
    then show ?thesis by (auto simp: connected_grid_def in_grid_def)
  qed
  with res mi show ?thesis by blast
qed

subsection \<open>Eller\<close>

lemma map_of_merge:
  "map_of (map (\<lambda>e. if snd e = s then (fst e, t) else e) al) x
     = map_option (\<lambda>v. if v = s then t else v) (map_of al x)"
  by (induction al) auto

lemma lookup_Some: "map_of d k = Some v \<Longrightarrow> lookup d k = Inr v"
  by (simp add: lookup_def)

lemma el_coreD:
  assumes "el_core nr nc g lab n"
  shows "maze_inv nr nc g"
    and "(x, y) \<in> link_rel g \<Longrightarrow> lab x \<noteq> None"
    and "lab x = Some u \<Longrightarrow> lab y = Some v \<Longrightarrow> (u = v) = ((x, y) \<in> (link_rel g)\<^sup>*)"
    and "lab x = Some v \<Longrightarrow> v \<le> n"
    and "sym (link_rel g)"
proof -
  show mi: "maze_inv nr nc g" using assms unfolding el_core_def by blast
  show "(x, y) \<in> link_rel g \<Longrightarrow> lab x \<noteq> None" using assms unfolding el_core_def by blast
  show "lab x = Some u \<Longrightarrow> lab y = Some v \<Longrightarrow> (u = v) = ((x, y) \<in> (link_rel g)\<^sup>*)"
    using assms unfolding el_core_def by blast
  show "lab x = Some v \<Longrightarrow> v \<le> n" using assms unfolding el_core_def by blast
  show "sym (link_rel g)" using mi by (auto simp: maze_inv_def dest: grown_sym)
qed

lemma el_coreI:
  assumes "maze_inv nr nc g"
    and "\<And>x y. (x, y) \<in> link_rel g \<Longrightarrow> lab x \<noteq> None"
    and "\<And>x y u v. lab x = Some u \<Longrightarrow> lab y = Some v \<Longrightarrow> (u = v) = ((x, y) \<in> (link_rel g)\<^sup>*)"
    and "\<And>x v. lab x = Some v \<Longrightarrow> v \<le> n"
  shows "el_core nr nc g lab n"
  unfolding el_core_def using assms by blast

lemma el_isolated:
  assumes "el_core nr nc g lab n" "lab b = None"
  shows "(b, y) \<in> (link_rel g)\<^sup>* \<longleftrightarrow> b = y" and "(y, b) \<in> (link_rel g)\<^sup>* \<longleftrightarrow> y = b"
proof -
  have out: "(b, z) \<notin> link_rel g" for z using el_coreD(2) [OF assms(1)] assms(2) by blast
  have inn: "(z, b) \<notin> link_rel g" for z
    using out el_coreD(5) [OF assms(1)] by (meson symD)
  show "(b, y) \<in> (link_rel g)\<^sup>* \<longleftrightarrow> b = y"
    using out by (auto elim: converse_rtranclE)
  show "(y, b) \<in> (link_rel g)\<^sup>* \<longleftrightarrow> y = b"
    using inn by (auto elim: rtranclE)
qed

lemma el_class:
  assumes "el_core nr nc g lab n" "lab a = Some s" "(x, a) \<in> (link_rel g)\<^sup>*"
  shows "lab x = Some s"
proof (cases "lab x")
  case None
  with el_isolated(1) [OF assms(1) None, of a] assms(3) have "x = a" by simp
  with None assms(2) show ?thesis by simp
next
  case (Some u)
  with el_coreD(3) [OF assms(1) Some assms(2)] assms(3) show ?thesis by simp
qed

lemma el_core_assign:
  assumes c: "el_core nr nc g lab n" and f: "lab c = None"
  shows "el_core nr nc g (lab(c \<mapsto> n + 1)) (n + 1)"
proof (rule el_coreI)
  show "maze_inv nr nc g" by (rule el_coreD(1) [OF c])
next
  fix x y assume "(x, y) \<in> link_rel g"
  from el_coreD(2) [OF c this] show "(lab(c \<mapsto> n + 1)) x \<noteq> None" by simp
next
  fix x v assume "(lab(c \<mapsto> n + 1)) x = Some v"
  then show "v \<le> n + 1" using el_coreD(4) [OF c, of x v] by (auto split: if_splits)
next
  fix x y u v
  assume x: "(lab(c \<mapsto> n + 1)) x = Some u" and y: "(lab(c \<mapsto> n + 1)) y = Some v"
  show "(u = v) = ((x, y) \<in> (link_rel g)\<^sup>*)"
  proof (cases "x = c")
    case xc: True
    show ?thesis
    proof (cases "y = c")
      case True
      with xc x y show ?thesis by simp
    next
      case False
      with y have "lab y = Some v" by simp
      from el_coreD(4) [OF c this] x xc have "u \<noteq> v" by simp
      with el_isolated(1) [OF c f, of y] xc False show ?thesis by simp
    qed
  next
    case xc: False
    with x have lx: "lab x = Some u" by simp
    show ?thesis
    proof (cases "y = c")
      case True
      from el_coreD(4) [OF c lx] y True have "u \<noteq> v" by simp
      with el_isolated(2) [OF c f, of x] xc True show ?thesis by simp
    next
      case False
      with y have "lab y = Some v" by simp
      from el_coreD(3) [OF c lx this] show ?thesis .
    qed
  qed
qed

lemma el_core_link_merge:
  assumes c: "el_core nr nc g lab n" and a: "lab a = Some s" and b: "lab b = Some t"
    and st: "s \<noteq> t" and ga: "in_grid nr nc a" and gb: "in_grid nr nc b" and adj: "adjacent a b"
  shows "\<exists>g'. link a (Some b) g = Inr g'
           \<and> el_core nr nc g' (\<lambda>x. map_option (\<lambda>v. if v = s then t else v) (lab x)) n"
proof -
  let ?L = "link_rel g"
  let ?f = "\<lambda>v. if v = s then t else v"
  have nconn: "(a, b) \<notin> ?L\<^sup>*" using el_coreD(3) [OF c a b] st by simp
  from maze_inv_link [OF el_coreD(1) [OF c] ga gb adj nconn]
  obtain g' where g': "link a (Some b) g = Inr g'" "maze_inv nr nc g'"
    "link_rel g' = ?L \<union> {(a, b), (b, a)}" by blast
  have "el_core nr nc g' (\<lambda>x. map_option ?f (lab x)) n"
  proof (rule el_coreI)
    show "maze_inv nr nc g'" by (rule g'(2))
  next
    fix x y assume "(x, y) \<in> link_rel g'"
    then have "lab x \<noteq> None" unfolding g'(3) using el_coreD(2) [OF c] a b by blast
    then show "map_option ?f (lab x) \<noteq> None" by simp
  next
    fix x v assume "map_option ?f (lab x) = Some v"
    then obtain v0 where "lab x = Some v0" "v = ?f v0" by auto
    then show "v \<le> n" using el_coreD(4) [OF c, of x v0] el_coreD(4) [OF c b] by auto
  next
    fix x y u v
    assume "map_option ?f (lab x) = Some u" "map_option ?f (lab y) = Some v"
    then obtain u0 v0 where x: "lab x = Some u0" "u = ?f u0" and y: "lab y = Some v0" "v = ?f v0"
      by auto
    have 1: "(u0 = v0) = ((x, y) \<in> ?L\<^sup>*)" by (rule el_coreD(3) [OF c x(1) y(1)])
    have 2: "(u0 = s) = ((x, a) \<in> ?L\<^sup>*)" by (rule el_coreD(3) [OF c x(1) a])
    have 3: "(t = v0) = ((b, y) \<in> ?L\<^sup>*)" by (rule el_coreD(3) [OF c b y(1)])
    have 4: "(u0 = t) = ((x, b) \<in> ?L\<^sup>*)" by (rule el_coreD(3) [OF c x(1) b])
    have 5: "(s = v0) = ((a, y) \<in> ?L\<^sup>*)" by (rule el_coreD(3) [OF c a y(1)])
    show "(u = v) = ((x, y) \<in> (link_rel g')\<^sup>*)"
      unfolding g'(3) rtrancl_join 1 [symmetric] 2 [symmetric] 3 [symmetric] 4 [symmetric]
        5 [symmetric] x(2) y(2)
      using st by auto
  qed
  with g'(1) show ?thesis by blast
qed

lemma el_core_carve:
  assumes c: "el_core nr nc g lab n" and a: "lab a = Some v" and b: "lab b = None"
    and ga: "in_grid nr nc a" and gb: "in_grid nr nc b" and adj: "adjacent a b"
  shows "\<exists>g'. link a (Some b) g = Inr g' \<and> el_core nr nc g' (lab(b \<mapsto> v)) n"
proof -
  let ?L = "link_rel g"
  have ab: "a \<noteq> b" using a b by auto
  have nconn: "(a, b) \<notin> ?L\<^sup>*" using el_isolated(2) [OF c b, of a] ab by simp
  from maze_inv_link [OF el_coreD(1) [OF c] ga gb adj nconn]
  obtain g' where g': "link a (Some b) g = Inr g'" "maze_inv nr nc g'"
    "link_rel g' = ?L \<union> {(a, b), (b, a)}" by blast
  have "el_core nr nc g' (lab(b \<mapsto> v)) n"
  proof (rule el_coreI)
    show "maze_inv nr nc g'" by (rule g'(2))
  next
    fix x y assume "(x, y) \<in> link_rel g'"
    then have "x = b \<or> lab x \<noteq> None" unfolding g'(3) using el_coreD(2) [OF c] a by blast
    then show "(lab(b \<mapsto> v)) x \<noteq> None" by auto
  next
    fix x w assume "(lab(b \<mapsto> v)) x = Some w"
    then show "w \<le> n" using el_coreD(4) [OF c, of x w] el_coreD(4) [OF c a]
      by (auto split: if_splits)
  next
    fix x y u w
    assume x: "(lab(b \<mapsto> v)) x = Some u" and y: "(lab(b \<mapsto> v)) y = Some w"
    have iso1: "(b, z) \<in> ?L\<^sup>* \<longleftrightarrow> b = z" for z by (rule el_isolated(1) [OF c b])
    have iso2: "(z, b) \<in> ?L\<^sup>* \<longleftrightarrow> z = b" for z by (rule el_isolated(2) [OF c b])
    show "(u = w) = ((x, y) \<in> (link_rel g')\<^sup>*)"
    proof (cases "x = b")
      case xb: True
      then have u: "u = v" using x by simp
      show ?thesis
      proof (cases "y = b")
        case True
        with xb x y show ?thesis by simp
      next
        case False
        with y have ly: "lab y = Some w" by simp
        have "(v = w) = ((a, y) \<in> ?L\<^sup>*)" by (rule el_coreD(3) [OF c a ly])
        then show ?thesis unfolding g'(3) rtrancl_join u xb iso1 iso2 using False ab by auto
      qed
    next
      case xb: False
      with x have lx: "lab x = Some u" by simp
      show ?thesis
      proof (cases "y = b")
        case True
        then have w: "w = v" using y by simp
        have "(u = v) = ((x, a) \<in> ?L\<^sup>*)" by (rule el_coreD(3) [OF c lx a])
        then show ?thesis unfolding g'(3) rtrancl_join w True iso1 iso2 using xb ab by auto
      next
        case False
        with y have ly: "lab y = Some w" by simp
        have "(u = w) = ((x, y) \<in> ?L\<^sup>*)" by (rule el_coreD(3) [OF c lx ly])
        then show ?thesis unfolding g'(3) rtrancl_join iso1 iso2 using xb False by auto
      qed
    qed
  qed
  with g'(1) show ?thesis by blast
qed


lemma el_assigningD:
  assumes "el_assigning nr nc r j g lab n"
  shows "el_core nr nc g lab n"
    and "lab x \<noteq> None \<Longrightarrow> in_grid nr nc x \<and> row x \<le> r"
    and "in_grid nr nc x \<Longrightarrow> row x < r \<or> (row x = r \<and> col x < j) \<Longrightarrow> lab x \<noteq> None"
    and "el_front lab r"
    and "lab (r, c) = Some v \<Longrightarrow> lab (r, c') = Some v \<Longrightarrow> c = c'"
  using assms unfolding el_assigning_def by blast+

lemma el_assigningI:
  assumes "el_core nr nc g lab n"
    and "\<And>x. lab x \<noteq> None \<Longrightarrow> in_grid nr nc x \<and> row x \<le> r"
    and "\<And>x. in_grid nr nc x \<Longrightarrow> row x < r \<or> (row x = r \<and> col x < j) \<Longrightarrow> lab x \<noteq> None"
    and "el_front lab r"
    and "\<And>c c' v. lab (r, c) = Some v \<Longrightarrow> lab (r, c') = Some v \<Longrightarrow> c = c'"
  shows "el_assigning nr nc r j g lab n"
  unfolding el_assigning_def using assms by blast

lemma el_frontD: "el_front lab r \<Longrightarrow> lab x = Some v \<Longrightarrow> \<exists>c. lab (r, c) = Some v"
  unfolding el_front_def by blast

lemma el_frontI: "(\<And>x v. lab x = Some v \<Longrightarrow> \<exists>c. lab (r, c) = Some v) \<Longrightarrow> el_front lab r"
  unfolding el_front_def by blast

lemma el_assign_step:
  assumes inv: "el_assigning nr nc r j g (map_of sets) n" and r: "0 \<le> r" "r < nr"
    and j: "0 \<le> j" "j < nc"
  shows "\<exists>n' sets'. eller_assign (r, j) (g, k, n, sets) = Inr (g, k, n', sets')
           \<and> el_assigning nr nc r (j + 1) g (map_of sets') n'"
proof (cases "map_of sets (r, j)")
  case (Some v)
  then have res: "eller_assign (r, j) (g, k, n, sets) = Inr (g, k, n, sets)"
    by (simp add: eller_assign_def)
  have "el_assigning nr nc r (j + 1) g (map_of sets) n"
  proof (rule el_assigningI)
    fix x assume x: "in_grid nr nc x" "row x < r \<or> (row x = r \<and> col x < j + 1)"
    show "map_of sets x \<noteq> None"
    proof (cases "x = (r, j)")
      case True
      with Some show ?thesis by simp
    next
      case False
      then have "row x < r \<or> (row x = r \<and> col x < j)"
        using x(2) by (cases x) (auto simp: row_def col_def)
      with el_assigningD(3) [OF inv x(1)] show ?thesis by blast
    qed
  qed (use el_assigningD [OF inv] in blast)+
  with res show ?thesis by blast
next
  case None
  let ?lab = "map_of sets"
  let ?lab' = "?lab((r, j) \<mapsto> n + 1)"
  have res: "eller_assign (r, j) (g, k, n, sets)
               = Inr (g, k, n + 1, AList.update (r, j) (n + 1) sets)"
    using None by (simp add: eller_assign_def)
  have m: "map_of (AList.update (r, j) (n + 1) sets) = ?lab'"
    by (rule update_conv')
  have core: "el_core nr nc g ?lab n" by (rule el_assigningD(1) [OF inv])
  have "el_assigning nr nc r (j + 1) g ?lab' (n + 1)"
  proof (rule el_assigningI)
    show "el_core nr nc g ?lab' (n + 1)" by (rule el_core_assign [OF core None])
  next
    fix x assume x: "?lab' x \<noteq> None"
    show "in_grid nr nc x \<and> row x \<le> r"
    proof (cases "x = (r, j)")
      case True
      with r j show ?thesis by (simp add: in_grid_def row_def col_def)
    next
      case False
      with x have "?lab x \<noteq> None" by simp
      then show ?thesis by (rule el_assigningD(2) [OF inv])
    qed
  next
    fix x assume x: "in_grid nr nc x" "row x < r \<or> (row x = r \<and> col x < j + 1)"
    show "?lab' x \<noteq> None"
    proof (cases "x = (r, j)")
      case True
      then show ?thesis by simp
    next
      case False
      then have "row x < r \<or> (row x = r \<and> col x < j)"
        using x(2) by (cases x) (auto simp: row_def col_def)
      with el_assigningD(3) [OF inv x(1)] False show ?thesis by simp
    qed
  next
    show "el_front ?lab' r"
    proof (rule el_frontI)
      fix x v assume xv: "?lab' x = Some v"
      show "\<exists>c. ?lab' (r, c) = Some v"
      proof (cases "x = (r, j)")
        case True
        with xv have "?lab' (r, j) = Some v" by simp
        then show ?thesis by blast
      next
        case False
        with xv have "?lab x = Some v" by simp
        from el_frontD [OF el_assigningD(4) [OF inv] this]
        obtain c where c: "?lab (r, c) = Some v" by blast
        with None have "c \<noteq> j" by auto
        with c have "?lab' (r, c) = Some v" by simp
        then show ?thesis by blast
      qed
    qed
  next
    fix c c' v assume a: "?lab' (r, c) = Some v" "?lab' (r, c') = Some v"
    have fresh: "?lab y \<noteq> Some (n + 1)" for y
      using el_coreD(4) [OF core, of y "n + 1"] by auto
    show "c = c'"
    proof (cases "c = j")
      case cj: True
      with a(1) have v: "v = n + 1" by simp
      show ?thesis
      proof (cases "c' = j")
        case True
        with cj show ?thesis by simp
      next
        case False
        with a(2) v fresh [of "(r, c')"] show ?thesis by simp
      qed
    next
      case cj: False
      with a(1) have 1: "?lab (r, c) = Some v" by simp
      show ?thesis
      proof (cases "c' = j")
        case True
        with a(2) have "v = n + 1" by simp
        with 1 fresh [of "(r, c)"] show ?thesis by simp
      next
        case False
        with a(2) have "?lab (r, c') = Some v" by simp
        with 1 show ?thesis by (rule el_assigningD(5) [OF inv])
      qed
    qed
  qed
  with res m show ?thesis by simp
qed

lemma el_assign_loop:
  assumes inv: "el_assigning nr nc r 0 g (map_of sets) n" and r: "0 \<le> r" "r < nr"
  shows "\<exists>n' sets'. for_each (row_cells nc r) eller_assign (g, k, n, sets) = Inr (g, k, n', sets')
           \<and> el_assigning nr nc r (int (length (row_cells nc r))) g (map_of sets') n'"
proof -
  let ?I = "\<lambda>pre (st :: eller_state). \<exists>n' sets'. st = (g, k, n', sets')
              \<and> el_assigning nr nc r (int (length pre)) g (map_of sets') n'"
  have "\<exists>st. for_each (row_cells nc r) eller_assign (g, k, n, sets) = Inr st
          \<and> ?I (row_cells nc r) st"
  proof (rule for_each_rule)
    show "?I [] (g, k, n, sets)" using inv by simp
  next
    fix pre x post st
    assume split: "row_cells nc r = pre @ x # post" and I: "?I pre st"
    from I obtain n1 sets1 where st: "st = (g, k, n1, sets1)"
      and inv1: "el_assigning nr nc r (int (length pre)) g (map_of sets1) n1" by blast
    from map_py_range_split [OF split [unfolded row_cells_def]]
    have x: "x = (r, int (length pre))" and l: "int (length pre) < nc" by simp_all
    from el_assign_step [OF inv1 r _ l, where k = k]
    obtain n' sets' where "eller_assign (r, int (length pre)) (g, k, n1, sets1) = Inr (g, k, n', sets')"
      "el_assigning nr nc r (int (length pre) + 1) g (map_of sets') n'" by auto
    then show "\<exists>st'. eller_assign x st = Inr st' \<and> ?I (pre @ [x]) st'"
      unfolding x st by (auto simp: add.commute)
  qed
  then show ?thesis by blast
qed


lemma el_joiningD:
  assumes "el_joining nr nc r i g lab n"
  shows "el_core nr nc g lab n"
    and "lab x \<noteq> None \<longleftrightarrow> in_grid nr nc x \<and> row x \<le> r"
    and "el_front lab r"
    and "a < b \<Longrightarrow> lab (r, a) = Some v \<Longrightarrow> lab (r, b) = Some v \<Longrightarrow> b \<le> i"
    and "a < b \<Longrightarrow> lab (r, a) = Some v \<Longrightarrow> lab (r, b) = Some v \<Longrightarrow> a \<le> m \<Longrightarrow> m \<le> b \<Longrightarrow>
           lab (r, m) = Some v"
  using assms unfolding el_joining_def by blast+

lemma el_joiningI:
  assumes "el_core nr nc g lab n"
    and "\<And>x. lab x \<noteq> None \<longleftrightarrow> in_grid nr nc x \<and> row x \<le> r"
    and "el_front lab r"
    and "\<And>a b v. a < b \<Longrightarrow> lab (r, a) = Some v \<Longrightarrow> lab (r, b) = Some v \<Longrightarrow> b \<le> i"
    and "\<And>a b v m. a < b \<Longrightarrow> lab (r, a) = Some v \<Longrightarrow> lab (r, b) = Some v \<Longrightarrow> a \<le> m \<Longrightarrow>
           m \<le> b \<Longrightarrow> lab (r, m) = Some v"
  shows "el_joining nr nc r i g lab n"
  unfolding el_joining_def using assms by blast

lemma el_joining_row:
  assumes "el_joining nr nc r i g lab n" "0 \<le> r" "r < nr" "0 \<le> c" "c < nc"
  shows "\<exists>v. lab (r, c) = Some v"
proof -
  have "in_grid nr nc (r, c) \<and> row (r, c) \<le> r"
    using assms(2-) by (simp add: in_grid_def row_def col_def)
  with el_joiningD(2) [OF assms(1), of "(r, c)"] show ?thesis by blast
qed

lemma el_assigning_joining:
  assumes inv: "el_assigning nr nc r (int (length (row_cells nc r))) g lab n"
  shows "el_joining nr nc r 0 g lab n"
proof (rule el_joiningI)
  show "el_core nr nc g lab n" by (rule el_assigningD(1) [OF inv])
  show "el_front lab r" by (rule el_assigningD(4) [OF inv])
next
  fix x
  show "lab x \<noteq> None \<longleftrightarrow> in_grid nr nc x \<and> row x \<le> r"
  proof
    assume "lab x \<noteq> None"
    then show "in_grid nr nc x \<and> row x \<le> r" by (rule el_assigningD(2) [OF inv])
  next
    assume x: "in_grid nr nc x \<and> row x \<le> r"
    then have "col x < int (length (row_cells nc r))"
      by (simp add: in_grid_def row_cells_def)
    with x have "row x < r \<or> (row x = r \<and> col x < int (length (row_cells nc r)))" by auto
    with x show "lab x \<noteq> None" using el_assigningD(3) [OF inv] by blast
  qed
next
  fix a b :: int and v
  assume "a < b" "lab (r, a) = Some v" "lab (r, b) = Some v"
  with el_assigningD(5) [OF inv, of a v b] show "b \<le> 0" by simp
next
  fix a b m :: int and v
  assume "a < b" "lab (r, a) = Some v" "lab (r, b) = Some v"
  with el_assigningD(5) [OF inv, of a v b] show "lab (r, m) = Some v" by simp
qed

lemma index_row_cells: "0 \<le> i \<Longrightarrow> i < nc \<Longrightarrow> index (row_cells nc r) i = Inr (r, i)"
  by (simp add: index_in_range row_cells_def)

lemma py_range_split:
  assumes "py_range n = pre @ x # post"
  shows "x = int (length pre)" and "int (length pre) < n"
  using map_py_range_split [of "\<lambda>x. x" n pre x post] assms by simp_all

lemma el_join_step:
  assumes inv: "el_joining nr nc r i g (map_of sets) n" and r: "0 \<le> r" "r < nr"
    and i: "0 \<le> i" "i + 1 < nc"
  shows "\<exists>g' k' sets'. eller_join rnd (row_cells nc r) i (g, k, n, sets) = Inr (g', k', n, sets')
           \<and> el_joining nr nc r (i + 1) g' (map_of sets') n"
proof -
  let ?lab = "map_of sets"
  let ?a = "(r, i)" and ?b = "(r, i + 1)"
  have ia: "index (row_cells nc r) i = Inr ?a" using i by (intro index_row_cells) simp_all
  have ib: "index (row_cells nc r) (i + 1) = Inr ?b" using i by (intro index_row_cells) simp_all
  from el_joining_row [OF inv r, of i] i obtain s where s: "?lab ?a = Some s" by auto
  from el_joining_row [OF inv r, of "i + 1"] i obtain t where t: "?lab ?b = Some t" by auto
  have ls: "lookup sets ?a = Inr s" "lookup sets ?b = Inr t"
    using s t by (simp_all add: lookup_Some)
  have weaken: "el_joining nr nc r (i + 1) g' ?lab n" if "el_joining nr nc r i g' ?lab n" for g'
  proof (rule el_joiningI)
    fix a b :: int and v
    assume "a < b" "?lab (r, a) = Some v" "?lab (r, b) = Some v"
    from el_joiningD(4) [OF that this] show "b \<le> i + 1" by simp
  qed (use el_joiningD [OF that] in blast)+
  show ?thesis
  proof (cases "s = t")
    case True
    then have "eller_join rnd (row_cells nc r) i (g, k, n, sets) = Inr (g, k, n, sets)"
      by (simp add: eller_join_def ia ib ls)
    with weaken [OF inv] show ?thesis by blast
  next
    case st: False
    from random_choice_in [of "[True, False]" rnd k]
    obtain coin k1 where rc: "random_choice rnd k [True, False] = Inr (coin, k1)" by auto
    show ?thesis
    proof (cases coin)
      case False
      then have "eller_join rnd (row_cells nc r) i (g, k, n, sets) = Inr (g, k1, n, sets)"
        using st by (simp add: eller_join_def ia ib ls rc)
      with weaken [OF inv] show ?thesis by blast
    next
      case True
      let ?f = "\<lambda>v. if v = s then t else v"
      let ?sets' = "map (\<lambda>e. if snd e = s then (fst e, t) else e) sets"
      let ?lab' = "\<lambda>x. map_option ?f (?lab x)"
      have ga: "in_grid nr nc ?a" and gb: "in_grid nr nc ?b"
        using r i by (simp_all add: in_grid_def row_def col_def)
      have adj: "adjacent ?a ?b" by (simp add: adjacent_def row_def col_def)
      from el_core_link_merge [OF el_joiningD(1) [OF inv] s t st ga gb adj]
      obtain g' where g': "link ?a (Some ?b) g = Inr g'" "el_core nr nc g' ?lab' n" by blast
      have ms: "merge_sets sets ?a ?b = Inr ?sets'"
        by (simp add: merge_sets_def ls)
      have m: "map_of ?sets' = ?lab'" by (rule ext) (rule map_of_merge)
      have res: "eller_join rnd (row_cells nc r) i (g, k, n, sets) = Inr (g', k1, n, ?sets')"
        using st True by (simp add: eller_join_def ia ib ls rc g'(1) ms)
      have U1: "c = i + 1" if "?lab (r, c) = Some t" for c
      proof (rule ccontr)
        assume "c \<noteq> i + 1"
        then consider "c < i + 1" | "i + 1 < c" by linarith
        then show False
        proof cases
          case 1
          from el_joiningD(4) [OF inv 1 that t] show False by simp
        next
          case 2
          from el_joiningD(4) [OF inv 2 t that] 2 show False by simp
        qed
      qed
      have U2: "c \<le> i" if "?lab (r, c) = Some s" for c
      proof (rule ccontr)
        assume "\<not> c \<le> i"
        then have "i < c" by simp
        from el_joiningD(4) [OF inv this s that] \<open>i < c\<close> show False by simp
      qed
      have ft: "?f t = t" by simp
      have key: "b \<le> i + 1 \<and> (\<forall>m. a \<le> m \<longrightarrow> m \<le> b \<longrightarrow> ?lab' (r, m) = Some v)"
        if ab: "a < b" and la: "?lab' (r, a) = Some v" and lb: "?lab' (r, b) = Some v" for a b v
      proof -
        from la obtain u where u: "?lab (r, a) = Some u" "v = ?f u" by auto
        from lb obtain w where w: "?lab (r, b) = Some w" "v = ?f w" by auto
        show ?thesis
        proof (cases "u = w")
          case True
          with w have wb: "?lab (r, b) = Some u" by simp
          have "b \<le> i" by (rule el_joiningD(4) [OF inv ab u(1) wb])
          moreover have "?lab' (r, m) = Some v" if "a \<le> m" "m \<le> b" for m
            using el_joiningD(5) [OF inv ab u(1) wb that] u(2) by simp
          ultimately show ?thesis by simp
        next
          case False
          with u(2) w(2) have "(u = s \<and> w = t) \<or> (u = t \<and> w = s)" by (auto split: if_splits)
          then show ?thesis
          proof
            assume uw: "u = s \<and> w = t"
            then have b: "b = i + 1" using U1 w(1) by simp
            have a: "a \<le> i" using U2 u(1) uw by simp
            have v: "v = t" using uw w(2) by simp
            have "?lab' (r, m) = Some v" if m: "a \<le> m" "m \<le> b" for m
            proof (cases "m = i + 1")
              case True
              with t v show ?thesis by simp
            next
              case False
              with m b have mi: "m \<le> i" by simp
              have "?lab (r, m) = Some s"
              proof (cases "a = i")
                case True
                with m mi s show ?thesis by simp
              next
                case False
                with a have "a < i" by simp
                from el_joiningD(5) [OF inv this _ s m(1) mi] u(1) uw show ?thesis by simp
              qed
              with v show ?thesis by simp
            qed
            with b show ?thesis by simp
          next
            assume uw: "u = t \<and> w = s"
            then have "a = i + 1" "b \<le> i" using U1 U2 u(1) w(1) by simp_all
            with ab show ?thesis by simp
          qed
        qed
      qed
      have "el_joining nr nc r (i + 1) g' ?lab' n"
      proof (rule el_joiningI)
        show "el_core nr nc g' ?lab' n" by (rule g'(2))
      next
        fix x show "?lab' x \<noteq> None \<longleftrightarrow> in_grid nr nc x \<and> row x \<le> r"
          using el_joiningD(2) [OF inv, of x] by simp
      next
        show "el_front ?lab' r"
        proof (rule el_frontI)
          fix x v assume "?lab' x = Some v"
          then obtain v0 where v0: "?lab x = Some v0" "v = ?f v0" by auto
          from el_frontD [OF el_joiningD(3) [OF inv] v0(1)]
          obtain c where "?lab (r, c) = Some v0" by blast
          with v0(2) have "?lab' (r, c) = Some v" by simp
          then show "\<exists>c. ?lab' (r, c) = Some v" by blast
        qed
      next
        fix a b :: int and v
        assume "a < b" "?lab' (r, a) = Some v" "?lab' (r, b) = Some v"
        from key [OF this] show "b \<le> i + 1" by simp
      next
        fix a b m :: int and v
        assume "a < b" "?lab' (r, a) = Some v" "?lab' (r, b) = Some v" "a \<le> m" "m \<le> b"
        with key [of a b v] show "?lab' (r, m) = Some v" by blast
      qed
      with res m show ?thesis by simp
    qed
  qed
qed

lemma el_join_loop:
  assumes inv: "el_joining nr nc r 0 g (map_of sets) n" and r: "0 \<le> r" "r < nr"
  shows "\<exists>g' k' sets' i.
           for_each (py_range (int (length (row_cells nc r)) - 1)) (eller_join rnd (row_cells nc r))
             (g, k, n, sets) = Inr (g', k', n, sets')
           \<and> el_joining nr nc r i g' (map_of sets') n"
proof -
  let ?I = "\<lambda>pre (st :: eller_state). \<exists>g' k' sets'. st = (g', k', n, sets')
              \<and> el_joining nr nc r (int (length pre)) g' (map_of sets') n"
  let ?xs = "py_range (int (length (row_cells nc r)) - 1)"
  have "\<exists>st. for_each ?xs (eller_join rnd (row_cells nc r)) (g, k, n, sets) = Inr st \<and> ?I ?xs st"
  proof (rule for_each_rule)
    show "?I [] (g, k, n, sets)" using inv by simp
  next
    fix pre x post st
    assume split: "?xs = pre @ x # post" and I: "?I pre st"
    from I obtain g1 k1 sets1 where st: "st = (g1, k1, n, sets1)"
      and inv1: "el_joining nr nc r (int (length pre)) g1 (map_of sets1) n" by blast
    from py_range_split [OF split]
    have x: "x = int (length pre)" and l: "int (length pre) < int (length (row_cells nc r)) - 1"
      by simp_all
    from l have l': "int (length pre) + 1 < nc" by (simp add: row_cells_def split: if_splits)
    from el_join_step [OF inv1 r _ l', where k = k1 and rnd = rnd]
    obtain g' k' sets' where
      "eller_join rnd (row_cells nc r) (int (length pre)) (g1, k1, n, sets1) = Inr (g', k', n, sets')"
      "el_joining nr nc r (int (length pre) + 1) g' (map_of sets') n" by auto
    then show "\<exists>st'. eller_join rnd (row_cells nc r) x st = Inr st' \<and> ?I (pre @ [x]) st'"
      unfolding x st by (auto simp: add.commute)
  qed
  then show ?thesis by blast
qed

lemma el_groupsD:
  assumes "el_groups lab rw G"
  shows "distinct (map fst G)"
    and "map_of G v = Some ms \<Longrightarrow> ms \<noteq> []"
    and "map_of G v = Some ms \<Longrightarrow> m \<in> set ms \<Longrightarrow> m \<in> set rw \<and> lab m = Some v"
    and "c \<in> set rw \<Longrightarrow> \<exists>v. lab c = Some v \<and> map_of G v \<noteq> None"
  using assms unfolding el_groups_def by blast+

lemma group_cell_step:
  assumes G: "el_groups (map_of sets) pre G" and c: "map_of sets c = Some v"
  shows "\<exists>G'. group_cell sets c G = Inr G' \<and> el_groups (map_of sets) (pre @ [c]) G'"
proof -
  let ?ms0 = "case map_of G v of None \<Rightarrow> [] | Some ms \<Rightarrow> ms"
  let ?G1 = "if map_of G v = None then AList.update v [] G else G"
  let ?G' = "AList.update v (?ms0 @ [c]) ?G1"
  have l1: "lookup ?G1 v = Inr ?ms0"
    by (auto simp: lookup_def update_conv')
  have res: "group_cell sets c G = Inr ?G'"
    using c l1 by (simp add: group_cell_def lookup_Some Let_def)
  have m: "map_of ?G' = (map_of G)(v \<mapsto> ?ms0 @ [c])"
    by (auto simp: update_conv')
  have d: "distinct (map fst ?G')"
    using el_groupsD(1) [OF G] by (simp add: distinct_update)
  have old: "m \<in> set pre \<and> map_of sets m = Some v" if "m \<in> set ?ms0" for m
  proof (cases "map_of G v")
    case None
    with that show ?thesis by simp
  next
    case (Some ms)
    with that have "m \<in> set ms" by simp
    from el_groupsD(3) [OF G Some this] show ?thesis .
  qed
  have "el_groups (map_of sets) (pre @ [c]) ?G'"
    unfolding el_groups_def
  proof (intro conjI allI impI ballI)
    show "distinct (map fst ?G')" by (rule d)
  next
    fix w ms assume "map_of ?G' w = Some ms"
    then have a: "((map_of G)(v \<mapsto> ?ms0 @ [c])) w = Some ms" unfolding m .
    show "ms \<noteq> []"
    proof (cases "w = v")
      case True
      with a show ?thesis by auto
    next
      case False
      with a have "map_of G w = Some ms" by simp
      then show ?thesis by (rule el_groupsD(2) [OF G])
    qed
    fix x assume x: "x \<in> set ms"
    have split: "x \<in> set ?ms0 \<or> x = c" if "w = v"
    proof -
      from a that have "ms = ?ms0 @ [c]" by simp
      with x show ?thesis by auto
    qed
    show "x \<in> set (pre @ [c])"
    proof (cases "w = v")
      case True
      from split [OF True] old [of x] show ?thesis by auto
    next
      case False
      with a have "map_of G w = Some ms" by simp
      from el_groupsD(3) [OF G this x] show ?thesis by simp
    qed
    show "map_of sets x = Some w"
    proof (cases "w = v")
      case True
      from split [OF True] old [of x] c True show ?thesis by auto
    next
      case False
      with a have "map_of G w = Some ms" by simp
      from el_groupsD(3) [OF G this x] show ?thesis by simp
    qed
  next
    fix x assume x: "x \<in> set (pre @ [c])"
    show "\<exists>w. map_of sets x = Some w \<and> map_of ?G' w \<noteq> None"
    proof (cases "x \<in> set pre")
      case True
      from el_groupsD(4) [OF G True] obtain w where "map_of sets x = Some w" "map_of G w \<noteq> None"
        by blast
      then have "map_of sets x = Some w \<and> ((map_of G)(v \<mapsto> ?ms0 @ [c])) w \<noteq> None" by simp
      then show ?thesis unfolding m by blast
    next
      case False
      with x have "x = c" by simp
      with c have "map_of sets x = Some v \<and> ((map_of G)(v \<mapsto> ?ms0 @ [c])) v \<noteq> None" by simp
      then show ?thesis unfolding m by blast
    qed
  qed
  with res show ?thesis by blast
qed

lemma group_sets_by_id_result:
  assumes "\<And>c. c \<in> set rw \<Longrightarrow> map_of sets c \<noteq> None"
  shows "\<exists>G. group_sets_by_id sets rw = Inr G \<and> el_groups (map_of sets) rw G"
  unfolding group_sets_by_id_def
proof (rule for_each_rule)
  show "el_groups (map_of sets) [] []" by (simp add: el_groups_def)
next
  fix pre x post G
  assume split: "rw = pre @ x # post" and G: "el_groups (map_of sets) pre G"
  from split have "x \<in> set rw" by simp
  from assms [OF this] obtain v where "map_of sets x = Some v" by auto
  from group_cell_step [OF G this]
  show "\<exists>G'. group_cell sets x G = Inr G' \<and> el_groups (map_of sets) (pre @ [x]) G'" .
qed

lemma el_carvingD:
  assumes "el_carving nr nc r ids lab0 g lab n"
  shows "el_core nr nc g lab n"
    and "lab x \<noteq> None \<Longrightarrow> in_grid nr nc x \<and> row x \<le> r + 1"
    and "in_grid nr nc x \<Longrightarrow> row x \<le> r \<Longrightarrow> lab x \<noteq> None"
    and "el_front lab r"
    and "lab (r, c) = lab0 (r, c)"
    and "lab (r + 1, c) = Some v \<Longrightarrow> lab (r, c) = Some v \<and> v \<in> ids"
    and "v \<in> ids \<Longrightarrow> \<exists>c. lab (r + 1, c) = Some v"
    and "lab (r + 1, c) = Some v \<Longrightarrow> lab (r + 1, c') = Some v \<Longrightarrow> c = c'"
  using assms unfolding el_carving_def by blast+

lemma el_carvingI:
  assumes "el_core nr nc g lab n"
    and "\<And>x. lab x \<noteq> None \<Longrightarrow> in_grid nr nc x \<and> row x \<le> r + 1"
    and "\<And>x. in_grid nr nc x \<Longrightarrow> row x \<le> r \<Longrightarrow> lab x \<noteq> None"
    and "el_front lab r"
    and "\<And>c. lab (r, c) = lab0 (r, c)"
    and "\<And>c v. lab (r + 1, c) = Some v \<Longrightarrow> lab (r, c) = Some v \<and> v \<in> ids"
    and "\<And>v. v \<in> ids \<Longrightarrow> \<exists>c. lab (r + 1, c) = Some v"
    and "\<And>c c' v. lab (r + 1, c) = Some v \<Longrightarrow> lab (r + 1, c') = Some v \<Longrightarrow> c = c'"
  shows "el_carving nr nc r ids lab0 g lab n"
  unfolding el_carving_def using assms by blast

lemma el_joining_carving:
  assumes J: "el_joining nr nc r i g lab n"
  shows "el_carving nr nc r {} lab g lab n"
proof -
  have no: "lab (r + 1, c) \<noteq> Some v" for c v
    using el_joiningD(2) [OF J, of "(r + 1, c)"] by (auto simp: row_def)
  show ?thesis
  proof (rule el_carvingI)
    show "el_core nr nc g lab n" by (rule el_joiningD(1) [OF J])
    show "el_front lab r" by (rule el_joiningD(3) [OF J])
  next
    fix x assume "lab x \<noteq> None"
    with el_joiningD(2) [OF J, of x] show "in_grid nr nc x \<and> row x \<le> r + 1" by simp
  next
    fix x assume "in_grid nr nc x" "row x \<le> r"
    with el_joiningD(2) [OF J, of x] show "lab x \<noteq> None" by simp
  qed (use no in simp_all)
qed

lemma el_carving_assigning:
  assumes C: "el_carving nr nc r ids lab0 g lab n"
    and all: "\<And>c v. lab0 (r, c) = Some v \<Longrightarrow> v \<in> ids"
  shows "el_assigning nr nc (r + 1) 0 g lab n"
proof (rule el_assigningI)
  show "el_core nr nc g lab n" by (rule el_carvingD(1) [OF C])
next
  fix x assume "lab x \<noteq> None"
  then show "in_grid nr nc x \<and> row x \<le> r + 1" by (rule el_carvingD(2) [OF C])
next
  fix x assume x: "in_grid nr nc x" "row x < r + 1 \<or> (row x = r + 1 \<and> col x < 0)"
  then have "row x \<le> r" by (auto simp: in_grid_def)
  with x(1) show "lab x \<noteq> None" by (rule el_carvingD(3) [OF C])
next
  show "el_front lab (r + 1)"
  proof (rule el_frontI)
    fix x v assume "lab x = Some v"
    from el_frontD [OF el_carvingD(4) [OF C] this] obtain c where "lab (r, c) = Some v" by blast
    then have "lab0 (r, c) = Some v" using el_carvingD(5) [OF C, of c] by simp
    from all [OF this] have "v \<in> ids" .
    then show "\<exists>c. lab (r + 1, c) = Some v" by (rule el_carvingD(7) [OF C])
  qed
next
  fix c c' v assume "lab (r + 1, c) = Some v" "lab (r + 1, c') = Some v"
  then show "c = c'" by (rule el_carvingD(8) [OF C])
qed

lemma maze_inv_num_rows: "maze_inv nr nc g \<Longrightarrow> num_rows g = nr"
  by (simp add: maze_inv_def wired_grid_def shape_def)

lemma maze_inv_get_cell: "maze_inv nr nc g \<Longrightarrow> get_cell g r c = Inr (cell_at nr nc r c)"
  by (simp add: maze_inv_def wired_grid_def get_cell_shape)

lemma set_row_cells: "set (row_cells nc r) = {x. row x = r \<and> 0 \<le> col x \<and> col x < nc}"
  by (auto simp: row_cells_def row_def col_def)

lemma el_carve_step:
  assumes inv: "el_carving nr nc r ids lab0 g (map_of sets) n" and r: "0 \<le> r" "r + 1 < nr"
    and ne: "ms \<noteq> []" and ms: "\<And>m. m \<in> set ms \<Longrightarrow> m \<in> set (row_cells nc r) \<and> lab0 m = Some v"
    and new: "v \<notin> ids"
  shows "\<exists>g' k' sets'. eller_carve rnd r ms (g, k, n, sets) = Inr (g', k', n, sets')
           \<and> el_carving nr nc r (insert v ids) lab0 g' (map_of sets') n"
proof -
  let ?lab = "map_of sets"
  have core: "el_core nr nc g ?lab n" by (rule el_carvingD(1) [OF inv])
  have mi: "maze_inv nr nc g" by (rule el_coreD(1) [OF core])
  from random_choice_in [OF ne, of rnd k]
  obtain mem k1 where ch: "random_choice rnd k ms = Inr (mem, k1)" "mem \<in> set ms" by blast
  from ms [OF ch(2)] obtain c where mem: "mem = (r, c)" and c: "0 \<le> c" "c < nc"
    and l0: "lab0 (r, c) = Some v"
    by (cases mem) (auto simp: set_row_cells row_def col_def)
  have lm: "?lab (r, c) = Some v" using el_carvingD(5) [OF inv, of c] l0 by simp
  let ?s = "(r + 1, c)"
  have gs: "in_grid nr nc ?s" and gm: "in_grid nr nc (r, c)"
    using r c by (simp_all add: in_grid_def row_def col_def)
  have gc: "get_cell g (row mem + 1) (col mem) = Inr (Some ?s)"
    using gs by (simp add: maze_inv_get_cell [OF mi] cell_at_def mem row_def col_def)
  have fresh: "?lab ?s = None"
  proof (cases "?lab ?s")
    case (Some w)
    from el_carvingD(6) [OF inv Some] lm new show ?thesis by auto
  qed simp
  have adj: "adjacent (r, c) ?s" by (simp add: adjacent_def row_def col_def)
  from el_core_carve [OF core lm fresh gm gs adj]
  obtain g' where g': "link (r, c) (Some ?s) g = Inr g'" "el_core nr nc g' (?lab(?s \<mapsto> v)) n"
    by blast
  let ?lab' = "?lab(?s \<mapsto> v)"
  have res: "eller_carve rnd r ms (g, k, n, sets) = Inr (g', k1, n, AList.update ?s v sets)"
    using r gc g'(1) lm
    by (simp add: eller_carve_def maze_inv_num_rows [OF mi] ch(1) mem lookup_Some)
  have m: "map_of (AList.update ?s v sets) = ?lab'" by (rule update_conv')
  have rowr: "?lab' (r, c') = ?lab (r, c')" for c' by simp
  have "el_carving nr nc r (insert v ids) lab0 g' ?lab' n"
  proof (rule el_carvingI)
    show "el_core nr nc g' ?lab' n" by (rule g'(2))
  next
    fix x assume x: "?lab' x \<noteq> None"
    show "in_grid nr nc x \<and> row x \<le> r + 1"
    proof (cases "x = ?s")
      case True
      with gs show ?thesis by (simp add: row_def)
    next
      case False
      with x have "?lab x \<noteq> None" by simp
      then show ?thesis by (rule el_carvingD(2) [OF inv])
    qed
  next
    fix x assume "in_grid nr nc x" "row x \<le> r"
    from el_carvingD(3) [OF inv this] show "?lab' x \<noteq> None" by simp
  next
    show "el_front ?lab' r"
    proof (rule el_frontI)
      fix x w assume xw: "?lab' x = Some w"
      show "\<exists>c'. ?lab' (r, c') = Some w"
      proof (cases "x = ?s")
        case True
        with xw have "w = v" by simp
        with lm have "?lab' (r, c) = Some w" by simp
        then show ?thesis by blast
      next
        case False
        with xw have "?lab x = Some w" by simp
        from el_frontD [OF el_carvingD(4) [OF inv] this] obtain c' where "?lab (r, c') = Some w"
          by blast
        then have "?lab' (r, c') = Some w" by simp
        then show ?thesis by blast
      qed
    qed
  next
    fix c' show "?lab' (r, c') = lab0 (r, c')"
      using el_carvingD(5) [OF inv, of c'] by simp
  next
    fix c' w assume a: "?lab' (r + 1, c') = Some w"
    show "?lab' (r, c') = Some w \<and> w \<in> insert v ids"
    proof (cases "c' = c")
      case True
      with a lm show ?thesis by simp
    next
      case False
      with a have "?lab (r + 1, c') = Some w" by simp
      from el_carvingD(6) [OF inv this] show ?thesis by simp
    qed
  next
    fix w assume w: "w \<in> insert v ids"
    show "\<exists>c'. ?lab' (r + 1, c') = Some w"
    proof (cases "w = v")
      case True
      then have "?lab' (r + 1, c) = Some w" by simp
      then show ?thesis by blast
    next
      case False
      with w have "w \<in> ids" by simp
      from el_carvingD(7) [OF inv this] obtain c' where c': "?lab (r + 1, c') = Some w" by blast
      with fresh have "c' \<noteq> c" by auto
      with c' have "?lab' (r + 1, c') = Some w" by simp
      then show ?thesis by blast
    qed
  next
    fix c1 c2 w assume a: "?lab' (r + 1, c1) = Some w" "?lab' (r + 1, c2) = Some w"
    have notv: "?lab (r + 1, c') \<noteq> Some v" for c'
      using el_carvingD(6) [OF inv, of c' v] new by auto
    show "c1 = c2"
    proof (cases "c1 = c")
      case c1: True
      with a(1) have w: "w = v" by simp
      show ?thesis
      proof (cases "c2 = c")
        case True
        with c1 show ?thesis by simp
      next
        case False
        with a(2) w notv [of c2] show ?thesis by simp
      qed
    next
      case c1: False
      with a(1) have 1: "?lab (r + 1, c1) = Some w" by simp
      show ?thesis
      proof (cases "c2 = c")
        case True
        with a(2) have "w = v" by simp
        with 1 notv [of c1] show ?thesis by simp
      next
        case False
        with a(2) have "?lab (r + 1, c2) = Some w" by simp
        with 1 show ?thesis by (rule el_carvingD(8) [OF inv])
      qed
    qed
  qed
  with res m show ?thesis by simp
qed

lemma el_carve_loop:
  assumes J: "el_joining nr nc r i g (map_of sets) n" and r: "0 \<le> r" "r + 1 < nr"
    and G: "el_groups (map_of sets) (row_cells nc r) G"
  shows "\<exists>g' k' sets'. for_each (map snd G) (eller_carve rnd r) (g, k, n, sets)
                          = Inr (g', k', n, sets')
           \<and> el_assigning nr nc (r + 1) 0 g' (map_of sets') n"
proof -
  let ?orig = "map_of sets"
  let ?I = "\<lambda>pre (st :: eller_state). \<exists>g' k' sets'. st = (g', k', n, sets')
              \<and> el_carving nr nc r (fst ` set (take (length pre) G)) ?orig g' (map_of sets') n"
  have "\<exists>st. for_each (map snd G) (eller_carve rnd r) (g, k, n, sets) = Inr st
          \<and> ?I (map snd G) st"
  proof (rule for_each_rule)
    show "?I [] (g, k, n, sets)" using el_joining_carving [OF J] by simp
  next
    fix pre x post st
    assume split: "map snd G = pre @ x # post" and I: "?I pre st"
    from I obtain g1 k1 sets1 where st: "st = (g1, k1, n, sets1)"
      and inv1: "el_carving nr nc r (fst ` set (take (length pre) G)) ?orig g1 (map_of sets1) n"
      by blast
    let ?p = "length pre"
    have "length (map snd G) = length (pre @ x # post)" using split by simp
    then have p: "?p < length G" by simp
    have "map snd G ! ?p = x" using split by simp
    with p have x: "x = snd (G ! ?p)" by simp
    let ?v = "fst (G ! ?p)"
    have "(?v, x) \<in> set G" using p x by (metis nth_mem prod.collapse)
    then have mo: "map_of G ?v = Some x" using el_groupsD(1) [OF G] by simp
    have ne: "x \<noteq> []" by (rule el_groupsD(2) [OF G mo])
    have mem: "m \<in> set (row_cells nc r) \<and> ?orig m = Some ?v" if "m \<in> set x" for m
      by (rule el_groupsD(3) [OF G mo that])
    have new: "?v \<notin> fst ` set (take ?p G)"
    proof
      assume "?v \<in> fst ` set (take ?p G)"
      then have "map fst G ! ?p \<in> set (take ?p (map fst G))" using p by (simp add: take_map)
      then obtain q where q: "q < ?p" "map fst G ! q = map fst G ! ?p"
        using p by (auto simp: in_set_conv_nth)
      have "distinct (map fst G)" by (rule el_groupsD(1) [OF G])
      then have "\<forall>i < length (map fst G). \<forall>j < length (map fst G).
                   i \<noteq> j \<longrightarrow> map fst G ! i \<noteq> map fst G ! j"
        by (simp only: distinct_conv_nth)
      with q p show False by (metis length_map less_trans nat_neq_iff)
    qed
    from el_carve_step [OF inv1 r ne mem new, where rnd = rnd and k = k1]
    obtain g' k' sets' where res: "eller_carve rnd r x (g1, k1, n, sets1) = Inr (g', k', n, sets')"
      and inv': "el_carving nr nc r (insert ?v (fst ` set (take ?p G))) ?orig g' (map_of sets') n"
      by blast
    have "take (Suc ?p) G = take ?p G @ [G ! ?p]" using p by (rule take_Suc_conv_app_nth)
    then have "fst ` set (take (length (pre @ [x])) G) = insert ?v (fst ` set (take ?p G))"
      by simp
    with res inv' show "\<exists>st'. eller_carve rnd r x st = Inr st' \<and> ?I (pre @ [x]) st'"
      unfolding st by simp
  qed
  then obtain g' k' sets' where
    res: "for_each (map snd G) (eller_carve rnd r) (g, k, n, sets) = Inr (g', k', n, sets')"
    and C: "el_carving nr nc r (fst ` set G) ?orig g' (map_of sets') n"
    by auto
  have "el_assigning nr nc (r + 1) 0 g' (map_of sets') n"
  proof (rule el_carving_assigning [OF C])
    fix c v assume cv: "?orig (r, c) = Some v"
    with el_joiningD(2) [OF J, of "(r, c)"] have "in_grid nr nc (r, c)" by simp
    then have "(r, c) \<in> set (row_cells nc r)"
      by (simp add: set_row_cells in_grid_def row_def col_def)
    from el_groupsD(4) [OF G this] cv have "map_of G v \<noteq> None" by simp
    then show "v \<in> fst ` set G" by (simp add: map_of_eq_None_iff)
  qed
  with res show ?thesis by blast
qed

lemma el_carve_last:
  assumes "\<not> r < num_rows g - 1"
  shows "for_each xs (eller_carve rnd r) (g, k, n, sets) = Inr (g, k, n, sets)"
  using assms by (induction xs) (simp_all add: eller_carve_def)

lemma el_closingD:
  assumes "el_closing nr nc r i L0 lab g"
  shows "maze_inv nr nc g"
    and "L0 \<subseteq> link_rel g"
    and "(x, y) \<in> (link_rel g)\<^sup>* \<Longrightarrow> (x, y) \<in> L0\<^sup>* \<or> (el_block lab r i x \<and> el_block lab r i y)"
    and "0 \<le> c \<Longrightarrow> c \<le> i \<Longrightarrow> 0 \<le> c' \<Longrightarrow> c' \<le> i \<Longrightarrow> ((r, c), (r, c')) \<in> (link_rel g)\<^sup>*"
  using assms unfolding el_closing_def by blast+

lemma el_closingI:
  assumes "maze_inv nr nc g"
    and "L0 \<subseteq> link_rel g"
    and "\<And>x y. (x, y) \<in> (link_rel g)\<^sup>* \<Longrightarrow>
           (x, y) \<in> L0\<^sup>* \<or> (el_block lab r i x \<and> el_block lab r i y)"
    and "\<And>c c'. 0 \<le> c \<Longrightarrow> c \<le> i \<Longrightarrow> 0 \<le> c' \<Longrightarrow> c' \<le> i \<Longrightarrow>
           ((r, c), (r, c')) \<in> (link_rel g)\<^sup>*"
  shows "el_closing nr nc r i L0 lab g"
  unfolding el_closing_def using assms by blast

lemma el_block_mono: "el_block lab r i x \<Longrightarrow> i \<le> j \<Longrightarrow> el_block lab r j x"
  unfolding el_block_def by (meson order_trans)

lemma el_blockI: "0 \<le> c \<Longrightarrow> c \<le> i \<Longrightarrow> lab x = Some v \<Longrightarrow> lab (r, c) = Some v \<Longrightarrow> el_block lab r i x"
  unfolding el_block_def by blast

lemma el_closing_start:
  assumes "maze_inv nr nc g"
  shows "el_closing nr nc r 0 (link_rel g) lab g"
proof (rule el_closingI)
  fix c c' :: int assume "0 \<le> c" "c \<le> 0" "0 \<le> c'" "c' \<le> 0"
  then have "c = c'" by simp
  then show "((r, c), (r, c')) \<in> (link_rel g)\<^sup>*" by simp
qed (use assms in simp_all)

lemma el_close_step:
  assumes J: "el_joining nr nc r i0 g0 (map_of sets) n"
    and inv: "el_closing nr nc r i (link_rel g0) (map_of sets) g"
    and r: "0 \<le> r" "r < nr" and i: "0 \<le> i" "i + 1 < nc"
  shows "\<exists>g'. eller_close (row_cells nc r) i (g, k, n, sets) = Inr (g', k, n, sets)
           \<and> el_closing nr nc r (i + 1) (link_rel g0) (map_of sets) g'"
proof -
  let ?lab = "map_of sets"
  let ?K = "link_rel g0"
  let ?L = "link_rel g"
  let ?a = "(r, i)" and ?b = "(r, i + 1)"
  have core: "el_core nr nc g0 ?lab n" by (rule el_joiningD(1) [OF J])
  have mi: "maze_inv nr nc g" by (rule el_closingD(1) [OF inv])
  have symL: "sym ?L" using mi by (auto simp: maze_inv_def dest: grown_sym)
  have sub: "?K\<^sup>* \<subseteq> ?L\<^sup>*" using el_closingD(2) [OF inv] by (rule rtrancl_mono)
  have ia: "index (row_cells nc r) i = Inr ?a" using i by (intro index_row_cells) simp_all
  have ib: "index (row_cells nc r) (i + 1) = Inr ?b" using i by (intro index_row_cells) simp_all
  from el_joining_row [OF J r, of i] i obtain s where s: "?lab ?a = Some s" by auto
  from el_joining_row [OF J r, of "i + 1"] i obtain t where t: "?lab ?b = Some t" by auto
  have ls: "lookup sets ?a = Inr s" "lookup sets ?b = Inr t"
    using s t by (simp_all add: lookup_Some)
  show ?thesis
  proof (cases "s = t")
    case True
    then have res: "eller_close (row_cells nc r) i (g, k, n, sets) = Inr (g, k, n, sets)"
      by (simp add: eller_close_def ia ib ls)
    have ab: "(?a, ?b) \<in> ?L\<^sup>*"
      using el_coreD(3) [OF core s t] True sub by auto
    have "el_closing nr nc r (i + 1) ?K ?lab g"
    proof (rule el_closingI)
      fix x y assume "(x, y) \<in> ?L\<^sup>*"
      from el_closingD(3) [OF inv this]
      show "(x, y) \<in> ?K\<^sup>* \<or> (el_block ?lab r (i + 1) x \<and> el_block ?lab r (i + 1) y)"
        by (auto intro: el_block_mono)
    next
      fix c c' :: int assume cc: "0 \<le> c" "c \<le> i + 1" "0 \<le> c'" "c' \<le> i + 1"
      have hub: "((r, d), ?a) \<in> ?L\<^sup>*" if "0 \<le> d" "d \<le> i + 1" for d
      proof (cases "d = i + 1")
        case True
        with ab symL show ?thesis by (simp add: rtrancl_sym)
      next
        case False
        with that have "d \<le> i" by simp
        with that(1) i(1) show ?thesis by (intro el_closingD(4) [OF inv]) simp_all
      qed
      from hub [OF cc(1,2)] hub [OF cc(3,4)] symL
      show "((r, c), (r, c')) \<in> ?L\<^sup>*" by (meson rtrancl_sym rtrancl_trans)
    qed (use el_closingD [OF inv] in simp_all)
    with res show ?thesis by blast
  next
    case st: False
    have ga: "in_grid nr nc ?a" and gb: "in_grid nr nc ?b"
      using r i by (simp_all add: in_grid_def row_def col_def)
    have adj: "adjacent ?a ?b" by (simp add: adjacent_def row_def col_def)
    have nconn: "(?a, ?b) \<notin> ?L\<^sup>*"
    proof
      assume "(?a, ?b) \<in> ?L\<^sup>*"
      from el_closingD(3) [OF inv this]
      show False
      proof
        assume "(?a, ?b) \<in> ?K\<^sup>*"
        with el_coreD(3) [OF core s t] st show False by simp
      next
        assume "el_block ?lab r i ?a \<and> el_block ?lab r i ?b"
        then obtain c where c: "0 \<le> c" "c \<le> i" "?lab (r, c) = Some t"
          using t unfolding el_block_def by auto
        then have "c < i + 1" by simp
        from el_joiningD(5) [OF J this c(3) t, of i] c(2) have "?lab ?a = Some t" by simp
        with s st show False by simp
      qed
    qed
    from maze_inv_link [OF mi ga gb adj nconn]
    obtain g' where g': "link ?a (Some ?b) g = Inr g'" "maze_inv nr nc g'"
      "link_rel g' = ?L \<union> {(?a, ?b), (?b, ?a)}" by blast
    have res: "eller_close (row_cells nc r) i (g, k, n, sets) = Inr (g', k, n, sets)"
      using st by (simp add: eller_close_def ia ib ls g'(1))
    have symL': "sym (link_rel g')" using g'(2) by (auto simp: maze_inv_def dest: grown_sym)
    have sub': "?L\<^sup>* \<subseteq> (link_rel g')\<^sup>*" unfolding g'(3) by (rule rtrancl_mono) blast
    have blk_a: "el_block ?lab r (i + 1) x" if "(x, ?a) \<in> ?L\<^sup>*" for x
      using el_closingD(3) [OF inv that]
    proof
      assume "(x, ?a) \<in> ?K\<^sup>*"
      from el_class [OF core s this] s i show ?thesis by (intro el_blockI [of i]) simp_all
    next
      assume "el_block ?lab r i x \<and> el_block ?lab r i ?a"
      then show ?thesis by (auto intro: el_block_mono)
    qed
    have blk_b: "el_block ?lab r (i + 1) x" if "(x, ?b) \<in> ?L\<^sup>*" for x
      using el_closingD(3) [OF inv that]
    proof
      assume "(x, ?b) \<in> ?K\<^sup>*"
      from el_class [OF core t this] t i show ?thesis by (intro el_blockI [of "i + 1"]) simp_all
    next
      assume "el_block ?lab r i x \<and> el_block ?lab r i ?b"
      then show ?thesis by (auto intro: el_block_mono)
    qed
    have rev: "(x, y) \<in> ?L\<^sup>*" if "(y, x) \<in> ?L\<^sup>*" for x y
      using symL that by (rule rtrancl_sym)
    have "el_closing nr nc r (i + 1) ?K ?lab g'"
    proof (rule el_closingI)
      show "maze_inv nr nc g'" by (rule g'(2))
      show "?K \<subseteq> link_rel g'" using el_closingD(2) [OF inv] g'(3) by auto
    next
      fix x y assume "(x, y) \<in> (link_rel g')\<^sup>*"
      then consider "(x, y) \<in> ?L\<^sup>*" | "(x, ?a) \<in> ?L\<^sup>*" "(?b, y) \<in> ?L\<^sup>*"
        | "(x, ?b) \<in> ?L\<^sup>*" "(?a, y) \<in> ?L\<^sup>*"
        unfolding g'(3) rtrancl_join by blast
      then show "(x, y) \<in> ?K\<^sup>* \<or> (el_block ?lab r (i + 1) x \<and> el_block ?lab r (i + 1) y)"
      proof cases
        case 1
        from el_closingD(3) [OF inv this] show ?thesis by (auto intro: el_block_mono)
      next
        case 2
        from blk_a [OF 2(1)] blk_b [OF rev [OF 2(2)]] show ?thesis by simp
      next
        case 3
        from blk_b [OF 3(1)] blk_a [OF rev [OF 3(2)]] show ?thesis by simp
      qed
    next
      fix c c' :: int assume cc: "0 \<le> c" "c \<le> i + 1" "0 \<le> c'" "c' \<le> i + 1"
      have hub: "((r, d), ?a) \<in> (link_rel g')\<^sup>*" if "0 \<le> d" "d \<le> i + 1" for d
      proof (cases "d = i + 1")
        case True
        have "(?b, ?a) \<in> link_rel g'" unfolding g'(3) by simp
        with True show ?thesis by auto
      next
        case False
        with that have "d \<le> i" by simp
        with that(1) i(1) have "((r, d), ?a) \<in> ?L\<^sup>*" by (intro el_closingD(4) [OF inv]) simp_all
        with sub' show ?thesis by auto
      qed
      from hub [OF cc(1,2)] hub [OF cc(3,4)] symL'
      show "((r, c), (r, c')) \<in> (link_rel g')\<^sup>*" by (meson rtrancl_sym rtrancl_trans)
    qed
    with res show ?thesis by blast
  qed
qed

lemma el_close_loop:
  assumes J: "el_joining nr nc r i0 g (map_of sets) n" and r: "0 \<le> r" "r < nr"
  shows "\<exists>g'. for_each (py_range (int (length (row_cells nc r)) - 1)) (eller_close (row_cells nc r))
                 (g, k, n, sets) = Inr (g', k, n, sets)
           \<and> el_closing nr nc r (int (length (py_range (int (length (row_cells nc r)) - 1))))
               (link_rel g) (map_of sets) g'"
proof -
  let ?xs = "py_range (int (length (row_cells nc r)) - 1)"
  let ?I = "\<lambda>pre (st :: eller_state). \<exists>g'. st = (g', k, n, sets)
              \<and> el_closing nr nc r (int (length pre)) (link_rel g) (map_of sets) g'"
  have "\<exists>st. for_each ?xs (eller_close (row_cells nc r)) (g, k, n, sets) = Inr st \<and> ?I ?xs st"
  proof (rule for_each_rule)
    show "?I [] (g, k, n, sets)"
      using el_closing_start [OF el_coreD(1) [OF el_joiningD(1) [OF J]]] by simp
  next
    fix pre x post st
    assume split: "?xs = pre @ x # post" and I: "?I pre st"
    from I obtain g1 where st: "st = (g1, k, n, sets)"
      and inv1: "el_closing nr nc r (int (length pre)) (link_rel g) (map_of sets) g1" by blast
    from py_range_split [OF split]
    have x: "x = int (length pre)" and l: "int (length pre) < int (length (row_cells nc r)) - 1"
      by simp_all
    from l have l': "int (length pre) + 1 < nc" by (simp add: row_cells_def split: if_splits)
    from el_close_step [OF J inv1 r _ l', where k = k]
    obtain g' where
      "eller_close (row_cells nc r) (int (length pre)) (g1, k, n, sets) = Inr (g', k, n, sets)"
      "el_closing nr nc r (int (length pre) + 1) (link_rel g) (map_of sets) g'" by auto
    then show "\<exists>st'. eller_close (row_cells nc r) x st = Inr st' \<and> ?I (pre @ [x]) st'"
      unfolding x st by (auto simp: add.commute)
  qed
  then show ?thesis by blast
qed

lemma el_closed_connected:
  assumes J: "el_joining nr nc r i0 g (map_of sets) n" and r: "0 \<le> r" "r + 1 = nr"
    and C: "el_closing nr nc r (int (length (py_range (int (length (row_cells nc r)) - 1))))
              (link_rel g) (map_of sets) g'"
  shows "connected_grid nr nc g'"
  unfolding connected_grid_def
proof (intro allI impI)
  fix x y assume x: "in_grid nr nc x" and y: "in_grid nr nc y"
  let ?lab = "map_of sets"
  let ?L = "link_rel g'"
  have core: "el_core nr nc g ?lab n" by (rule el_joiningD(1) [OF J])
  have symL: "sym ?L" using el_closingD(1) [OF C] by (auto simp: maze_inv_def dest: grown_sym)
  have sub: "(link_rel g)\<^sup>* \<subseteq> ?L\<^sup>*" using el_closingD(2) [OF C] by (rule rtrancl_mono)
  from x have nc: "0 < nc" by (auto simp: in_grid_def)
  then have len: "int (length (py_range (int (length (row_cells nc r)) - 1))) = nc - 1"
    by (simp add: row_cells_def)
  have hub: "\<exists>c. 0 \<le> c \<and> c \<le> nc - 1 \<and> (z, (r, c)) \<in> ?L\<^sup>*" if z: "in_grid nr nc z" for z
  proof -
    from z r have "in_grid nr nc z \<and> row z \<le> r" by (auto simp: in_grid_def)
    with el_joiningD(2) [OF J, of z] obtain v where v: "?lab z = Some v" by auto
    from el_frontD [OF el_joiningD(3) [OF J] v] obtain c where c: "?lab (r, c) = Some v" by blast
    with el_joiningD(2) [OF J, of "(r, c)"] have "in_grid nr nc (r, c)" by simp
    then have c01: "0 \<le> c \<and> c \<le> nc - 1" by (simp add: in_grid_def col_def)
    from el_coreD(3) [OF core v c] have "(z, (r, c)) \<in> (link_rel g)\<^sup>*" by simp
    with sub c01 show ?thesis by blast
  qed
  from hub [OF x] obtain c where c: "0 \<le> c" "c \<le> nc - 1" "(x, (r, c)) \<in> ?L\<^sup>*" by blast
  from hub [OF y] obtain c' where c': "0 \<le> c'" "c' \<le> nc - 1" "(y, (r, c')) \<in> ?L\<^sup>*" by blast
  have "((r, c), (r, c')) \<in> ?L\<^sup>*"
    using el_closingD(4) [OF C [unfolded len] c(1,2) c'(1,2)] .
  with c(3) c'(3) symL show "(x, y) \<in> ?L\<^sup>*" by (meson rtrancl_sym rtrancl_trans)
qed

lemma el_row_result:
  assumes A: "el_assigning nr nc r 0 g (map_of sets) n" and r: "0 \<le> r" "r < nr"
  shows "\<exists>g' k' n' sets'. eller_row rnd (r, row_cells nc r) (g, k, n, sets) = Inr (g', k', n', sets')
           \<and> el_rows nr nc (r + 1) g' (map_of sets') n'"
proof -
  let ?rw = "row_cells nc r"
  from el_assign_loop [OF A r, where k = k]
  obtain n1 sets1 where s1: "for_each ?rw eller_assign (g, k, n, sets) = Inr (g, k, n1, sets1)"
    and A1: "el_assigning nr nc r (int (length ?rw)) g (map_of sets1) n1" by blast
  from el_join_loop [OF el_assigning_joining [OF A1] r, where k = k and rnd = rnd]
  obtain g2 k2 sets2 i where
    s2: "for_each (py_range (int (length ?rw) - 1)) (eller_join rnd ?rw) (g, k, n1, sets1)
           = Inr (g2, k2, n1, sets2)"
    and J: "el_joining nr nc r i g2 (map_of sets2) n1" by blast
  have "map_of sets2 c \<noteq> None" if "c \<in> set ?rw" for c
  proof -
    from that r have "in_grid nr nc c \<and> row c \<le> r" by (auto simp: set_row_cells in_grid_def)
    with el_joiningD(2) [OF J, of c] show ?thesis by simp
  qed
  from group_sets_by_id_result [of ?rw sets2, OF this]
  obtain G where s3: "group_sets_by_id sets2 ?rw = Inr G"
    and G: "el_groups (map_of sets2) ?rw G" by blast
  have nr2: "num_rows g2 = nr"
    by (rule maze_inv_num_rows [OF el_coreD(1) [OF el_joiningD(1) [OF J]]])
  show ?thesis
  proof (cases "r + 1 < nr")
    case True
    from el_carve_loop [OF J r(1) True G, where k = k2 and rnd = rnd]
    obtain g3 k3 sets3 where
      s4: "for_each (map snd G) (eller_carve rnd r) (g2, k2, n1, sets2) = Inr (g3, k3, n1, sets3)"
      and A3: "el_assigning nr nc (r + 1) 0 g3 (map_of sets3) n1" by blast
    have nr3: "num_rows g3 = nr"
      by (rule maze_inv_num_rows [OF el_coreD(1) [OF el_assigningD(1) [OF A3]]])
    have "eller_row rnd (r, ?rw) (g, k, n, sets) = Inr (g3, k3, n1, sets3)"
      using True by (simp add: eller_row_def s1 s2 s3 s4 nr3)
    moreover have "el_rows nr nc (r + 1) g3 (map_of sets3) n1"
      using True A3 by (simp add: el_rows_def)
    ultimately show ?thesis by blast
  next
    case False
    with r have last: "r + 1 = nr" by simp
    have s4: "for_each (map snd G) (eller_carve rnd r) (g2, k2, n1, sets2) = Inr (g2, k2, n1, sets2)"
      using last nr2 by (intro el_carve_last) simp
    from el_close_loop [OF J r, where k = k2]
    obtain g' where s5: "for_each (py_range (int (length ?rw) - 1)) (eller_close ?rw)
                           (g2, k2, n1, sets2) = Inr (g', k2, n1, sets2)"
      and C: "el_closing nr nc r (int (length (py_range (int (length ?rw) - 1))))
                (link_rel g2) (map_of sets2) g'" by blast
    have "eller_row rnd (r, ?rw) (g, k, n, sets) = Inr (g', k2, n1, sets2)"
      using last by (simp add: eller_row_def s1 s2 s3 s4 s5 nr2)
    moreover have "el_rows nr nc (r + 1) g' (map_of sets2) n1"
      using last el_closingD(1) [OF C] el_closed_connected [OF J r(1) last C]
      by (simp add: el_rows_def)
    ultimately show ?thesis by blast
  qed
qed

lemma zip_grid_rows:
  "zip (py_range (int (length (grid_rows nr nc)))) (grid_rows nr nc)
     = map (\<lambda>r. (r, row_cells nc r)) (py_range nr)"
proof -
  have 1: "grid_rows nr nc = map (row_cells nc) (py_range nr)"
    by (simp add: grid_rows_def row_cells_def)
  have 2: "py_range (int (length (grid_rows nr nc))) = py_range nr"
    by (simp add: 1 py_range_def)
  show ?thesis unfolding 2 unfolding 1 by (simp add: zip_map2 zip_same_conv_map)
qed

lemma eller_result:
  "\<exists>g'. eller_make_maze rnd (fresh_grid nr nc) = Inr g'
         \<and> maze_inv nr nc g' \<and> connected_grid nr nc g'"
proof -
  let ?xs = "map (\<lambda>r. (r, row_cells nc r)) (py_range nr)"
  let ?I = "\<lambda>pre (st :: eller_state). \<exists>g k n sets. st = (g, k, n, sets)
              \<and> el_rows nr nc (int (length pre)) g (map_of sets) n"
  have "\<exists>st. for_each ?xs (eller_row rnd) (fresh_grid nr nc, 0, 0, []) = Inr st \<and> ?I ?xs st"
  proof (rule for_each_rule)
    have "el_rows nr nc 0 (fresh_grid nr nc) (map_of []) 0"
    proof (cases "0 < nr")
      case True
      have "el_assigning nr nc 0 0 (fresh_grid nr nc) (map_of []) 0"
        by (rule el_assigningI)
           (auto simp: el_core_def maze_inv_fresh el_front_def in_grid_def)
      with True show ?thesis by (simp add: el_rows_def)
    next
      case False
      then show ?thesis
        by (auto simp: el_rows_def maze_inv_fresh connected_grid_def in_grid_def)
    qed
    then show "?I [] (fresh_grid nr nc, 0, 0, [])" by simp
  next
    fix pre x post st
    assume split: "?xs = pre @ x # post" and I: "?I pre st"
    from map_py_range_split [OF split]
    have x: "x = (int (length pre), row_cells nc (int (length pre)))" and l: "int (length pre) < nr"
      by simp_all
    from I l obtain g k n sets where st: "st = (g, k, n, sets)"
      and A: "el_assigning nr nc (int (length pre)) 0 g (map_of sets) n"
      by (auto simp: el_rows_def)
    from el_row_result [OF A _ l, where k = k and rnd = rnd]
    show "\<exists>st'. eller_row rnd x st = Inr st' \<and> ?I (pre @ [x]) st'"
      unfolding x st by (auto simp: add.commute)
  qed
  then obtain g' k' n' sets' where
    res: "for_each ?xs (eller_row rnd) (fresh_grid nr nc, 0, 0, []) = Inr (g', k', n', sets')"
    and R: "el_rows nr nc (int (length ?xs)) g' (map_of sets') n'" by auto
  have "\<not> int (length ?xs) < nr" by simp
  with R have "maze_inv nr nc g' \<and> connected_grid nr nc g'" by (simp only: el_rows_def if_False)
  moreover have "eller_make_maze rnd (fresh_grid nr nc) = Inr g'"
  proof -
    have "rows (fresh_grid nr nc) = grid_rows nr nc" by (simp add: fresh_grid_def)
    then show ?thesis by (simp add: eller_make_maze_def zip_grid_rows res)
  qed
  ultimately show ?thesis by blast
qed

section \<open>The mazes are spanning trees\<close>

lemma make_maze_result:
  "\<exists>g'. make_maze m rnd (fresh_grid nr nc) = Inr g'
         \<and> maze_inv nr nc g' \<and> connected_grid nr nc g'"
proof (cases m)
  case BinaryTreeMazeMaker
  with binary_tree_result [of rnd nr nc] show ?thesis by (simp add: make_maze_def)
next
  case SidewinderMazeMaker
  with sidewinder_result [of rnd nr nc] show ?thesis by (simp add: make_maze_def)
next
  case EllerMazeMaker
  with eller_result [of rnd nr nc] show ?thesis by (simp add: make_maze_def)
qed

lemma maze_inv_all_cells: "maze_inv nr nc g \<Longrightarrow> all_cells g = grid_cells nr nc"
  by (simp add: maze_inv_def wired_grid_def shape_all_cells)

lemma connected_one_component:
  assumes sub: "E \<subseteq> V \<times> V" and conn: "\<And>a b. a \<in> V \<Longrightarrow> b \<in> V \<Longrightarrow> (a, b) \<in> E\<^sup>*"
    and ne: "v0 \<in> V"
  shows "components V E = {V}"
proof -
  have "E\<^sup>* `` {v} = V" if v: "v \<in> V" for v
  proof
    show "E\<^sup>* `` {v} \<subseteq> V"
    proof
      fix y assume "y \<in> E\<^sup>* `` {v}"
      then have "(v, y) \<in> E\<^sup>*" by simp
      then show "y \<in> V" using v sub by (induction rule: rtrancl_induct) auto
    qed
    show "V \<subseteq> E\<^sup>* `` {v}" using conn [OF v] by auto
  qed
  then have "(\<lambda>v. E\<^sup>* `` {v}) ` V = (\<lambda>v. V) ` V" by simp
  with ne show ?thesis unfolding components_def by auto
qed

lemma maze_spanning_tree:
  assumes mi: "maze_inv nr nc g" and co: "connected_grid nr nc g" and nr: "1 \<le> nr" and nc: "1 \<le> nc"
  shows "spanning_tree (set (all_cells g)) (link_rel g)"
    and "int (card (undirected (link_rel g))) = nr * nc - 1"
proof -
  let ?V = "Collect (in_grid nr nc)"
  let ?E = "link_rel g"
  have V: "set (all_cells g) = ?V" by (simp add: maze_inv_all_cells [OF mi])
  have gr: "grown ?V adjacent ?E" using mi by (simp add: maze_inv_def)
  have fin: "finite ?V" using V by (metis List.finite_set)
  have sub: "?E \<subseteq> ?V \<times> ?V" using grown_adj [OF gr] by auto
  have conn: "(a, b) \<in> ?E\<^sup>*" if "a \<in> ?V" "b \<in> ?V" for a b
    using co that unfolding connected_grid_def by blast
  have "in_grid nr nc (0, 0)" using nr nc by (simp add: in_grid_def row_def col_def)
  then have "(0, 0) \<in> ?V" by simp
  from connected_one_component [OF sub conn this] have "card (components ?V ?E) = 1" by simp
  with grown_count [OF fin gr] have count: "card (undirected ?E) + 1 = card ?V" by simp
  have nocyc: "\<not> cycle ?E p" for p
    by (rule bridged_no_cycle [OF grown_sym [OF gr] grown_bridged [OF gr]])
  show "spanning_tree (set (all_cells g)) ?E"
    unfolding V spanning_tree_def using sub grown_sym [OF gr] count nocyc conn by blast
  have "card ?V = length (grid_cells nr nc)"
    using distinct_card [of "grid_cells nr nc"] by simp
  then have "int (card ?V) = nr * nc" using nr nc by (simp add: length_grid_cells)
  with count show "int (card (undirected ?E)) = nr * nc - 1" by linarith
qed

lemma binary_tree_corridor: "binary_tree_make_maze (\<lambda>_. 0) (fresh_grid 1 2) = Inr two_cells"
proof -
  have cells: "grid_cells 1 2 = [(0, 0), (0, 1)]"
    by (simp add: grid_cells_def grid_rows_def py_range_def upt_rec)
  have w: "wired_grid 1 2 (fresh_grid 1 2)" by simp
  have n0: "get_neighbor (fresh_grid 1 2) (0, 0) SOUTH = Inr None"
    "get_neighbor (fresh_grid 1 2) (0, 0) EAST = Inr (Some (0, 1))"
    using get_neighbor_wired [OF w, of "(0, 0)"]
    by (simp_all add: in_grid_def cell_at_def row_def col_def)
  let ?g = "link_one (0, 1) (0, 0) (link_one (0, 0) (0, 1) (fresh_grid 1 2))"
  have w': "wired_grid 1 2 ?g" by (simp add: wired_grid_link_one)
  have n1: "get_neighbor ?g (0, 1) SOUTH = Inr None" "get_neighbor ?g (0, 1) EAST = Inr None"
    using get_neighbor_wired [OF w', of "(0, 1)"]
    by (simp_all add: in_grid_def cell_at_def row_def col_def)
  have c0: "binary_tree_cell (\<lambda>_. 0) (0, 0) (fresh_grid 1 2, 0) = Inr (?g, Suc 0)"
    by (simp add: binary_tree_cell_def n0 present_def random_choice_def link_Some)
  have c1: "binary_tree_cell (\<lambda>_. 0) (0, 1) (?g, Suc 0) = Inr (?g, Suc 0)"
    by (simp add: binary_tree_cell_def n1 present_def)
  have g: "?g = two_cells"
    by (simp add: link_one_def two_cells_def fresh_grid_def set_add_def)
  have "binary_tree_make_maze (\<lambda>_. 0) (fresh_grid 1 2) = Inr ?g"
    by (simp add: binary_tree_make_maze_def cells c0 c1)
  then show ?thesis unfolding g .
qed

text \<open>
  C4: whichever maker runs on a grid that the constructor has just built, the maker returns
  and, in the grid it leaves, two linked cells are cells of the grid whose coordinates are
  equal in one coordinate and differ by exactly 1 in the other, and a cell is in the link set
  of another exactly when the other is in its link set.
\<close>

theorem links_adjacent_symmetric:
  "\<exists>g g'. Grid nr nc = Inr g \<and> make_maze m rnd g = Inr g'
     \<and> (\<forall>a b. is_linked g' a b \<longrightarrow>
            adjacent a b \<and> a \<in> set (all_cells g') \<and> b \<in> set (all_cells g'))
     \<and> (\<forall>a b. is_linked g' a b = is_linked g' b a)"
proof -
  from make_maze_result [of m rnd nr nc]
  obtain g' where res: "make_maze m rnd (fresh_grid nr nc) = Inr g'" and mi: "maze_inv nr nc g'"
    by blast
  have gr: "grown (Collect (in_grid nr nc)) adjacent (link_rel g')"
    using mi by (simp add: maze_inv_def)
  have V: "set (all_cells g') = Collect (in_grid nr nc)" by (simp add: maze_inv_all_cells [OF mi])
  have 1: "adjacent a b \<and> a \<in> set (all_cells g') \<and> b \<in> set (all_cells g')"
    if "is_linked g' a b" for a b
  proof -
    from that have "(a, b) \<in> link_rel g'" by (simp add: link_rel_def)
    from grown_adj [OF gr this] show ?thesis unfolding V by simp
  qed
  have 2: "is_linked g' a b = is_linked g' b a" for a b
  proof -
    have "(x, y) \<in> link_rel g' \<Longrightarrow> (y, x) \<in> link_rel g'" for x y
      using grown_sym [OF gr] by (rule symD)
    then show ?thesis unfolding link_rel_def by blast
  qed
  from res 1 2 show ?thesis unfolding Grid_fresh by blast
qed

theorem links_adjacent_symmetric_witness:
  "\<exists>g'. make_maze BinaryTreeMazeMaker (\<lambda>_. 0) (fresh_grid 1 2) = Inr g'
     \<and> is_linked g' (0, 0) (0, 1) \<and> adjacent (0, 0) (0, 1)
     \<and> (0, 0) \<in> set (all_cells g') \<and> (0, 1) \<in> set (all_cells g')
     \<and> is_linked g' (0, 1) (0, 0)"
proof -
  from links_adjacent_symmetric [of 1 2 BinaryTreeMazeMaker "\<lambda>_. 0"]
  obtain g' where res: "make_maze BinaryTreeMazeMaker (\<lambda>_. 0) (fresh_grid 1 2) = Inr g'"
    and adj: "\<And>a b. is_linked g' a b \<Longrightarrow>
                adjacent a b \<and> a \<in> set (all_cells g') \<and> b \<in> set (all_cells g')"
    and sy: "\<And>a b. is_linked g' a b = is_linked g' b a"
    unfolding Grid_fresh by auto
  from res have "g' = two_cells" by (simp add: make_maze_def binary_tree_corridor)
  then have l: "is_linked g' (0, 0) (0, 1)" by (simp add: is_linked_def two_cells_def)
  from adj [OF l] sy [of "(0, 0)" "(0, 1)"] l res show ?thesis by blast
qed

text \<open>
  C1: on a grid with at least one row and one column that the constructor has just built,
  each of the three makers returns, and the links of the grid it leaves are a spanning tree
  over the rows * columns cells of the grid: one undirected link less than there are cells,
  no cycle, and every cell connected to every other cell.
\<close>

theorem makers_spanning_tree:
  assumes "1 \<le> nr" and "1 \<le> nc"
  shows "\<exists>g g'. Grid nr nc = Inr g \<and> make_maze m rnd g = Inr g'
           \<and> distinct (all_cells g') \<and> int (length (all_cells g')) = nr * nc
           \<and> spanning_tree (set (all_cells g')) (link_rel g')
           \<and> int (card (undirected (link_rel g'))) = nr * nc - 1"
proof -
  from make_maze_result [of m rnd nr nc]
  obtain g' where res: "make_maze m rnd (fresh_grid nr nc) = Inr g'" and mi: "maze_inv nr nc g'"
    and co: "connected_grid nr nc g'" by blast
  have cells: "all_cells g' = grid_cells nr nc" by (rule maze_inv_all_cells [OF mi])
  have "int (length (all_cells g')) = nr * nc"
    using assms by (simp add: cells length_grid_cells)
  moreover have "distinct (all_cells g')" by (simp add: cells)
  ultimately show ?thesis
    using res maze_spanning_tree [OF mi co assms] unfolding Grid_fresh by blast
qed

theorem makers_spanning_tree_witness:
  "(1 :: int) \<le> 2 \<and> (1 :: int) \<le> 3
   \<and> (\<exists>g g'. Grid 2 3 = Inr g \<and> make_maze EllerMazeMaker (\<lambda>k. k) g = Inr g'
           \<and> distinct (all_cells g') \<and> int (length (all_cells g')) = 2 * 3
           \<and> spanning_tree (set (all_cells g')) (link_rel g')
           \<and> int (card (undirected (link_rel g'))) = 2 * 3 - 1)"
  using makers_spanning_tree [of 2 3 EllerMazeMaker "\<lambda>k. k"] by simp

end
